theory Spec2Isabelle
  imports Complex_Main "HOL-Library.Multiset" "HOL-Library.Log_Nat"
begin

section \<open>Data model (src/types/index.ts)\<close>

text \<open>
  A \<open>TimePeriod\<close> has a start year and an optional end year. Years are integers; the
  optional field \<open>end?: number\<close> is an \<open>int option\<close>, \<open>None\<close> standing for \<open>undefined\<close>.
\<close>

record TimePeriod =
  start :: int
  end' :: "int option"

record Movement =
  id' :: string
  name :: string
  period :: TimePeriod
  description :: string
  shortDescription :: string
  color :: string
  region :: "string option"
  keyArtists :: "string list option"
  keyWorks :: "string list option"
  imageUrl :: "string option"

text \<open>
  Movements are JavaScript objects. \<open>Array.prototype.indexOf\<close> compares them with
  \<open>===\<close>, that is by object identity, so an input array is a list of references into
  a store of (immutable) movement objects. Two references are equal exactly when they
  denote the same object.
\<close>

type_synonym mref = nat
type_synonym heap = "mref \<Rightarrow> Movement"

text \<open>
  A JavaScript number is an IEEE 754 double: \<open>Finite x\<close> is the double whose value is
  the rational \<open>x\<close> (\<open>Finite 0\<close> is \<open>+0\<close>), \<open>NegZero\<close> is \<open>-0\<close>, and there are the
  two infinities and \<open>NaN\<close>.
\<close>

datatype number = Finite rat | NegZero | PosInfinity | NegInfinity | NaN

section \<open>Timeline utilities (src/utils/timeline.ts)\<close>

subsection \<open>Arithmetic of JavaScript numbers\<close>

text \<open>\<open>pow2 e\<close> is \<open>2\<close> to the power \<open>e\<close>, for an exponent of either sign.\<close>

definition pow2 :: "int \<Rightarrow> rat" where
  "pow2 e = (if 0 \<le> e then 2 ^ nat e else 1 / 2 ^ nat (- e))"

text \<open>The exponent of a positive rational: the \<open>e\<close> with \<open>2^e \<le> a < 2^(e+1)\<close>.\<close>

definition ilog2 :: "rat \<Rightarrow> int" where
  "ilog2 a =
     (let e0 = bitlen (fst (quotient_of a)) - bitlen (snd (quotient_of a))
      in if pow2 e0 \<le> a then e0 else e0 - 1)"

text \<open>The nearest integer, a tie going to the even one.\<close>

definition roundHalfEven :: "rat \<Rightarrow> int" where
  "roundHalfEven q =
     (let n = \<lfloor>q\<rfloor>; r = q - of_int n
      in if r < 1 / 2 then n else if 1 / 2 < r then n + 1 else if even n then n else n + 1)"

text \<open>
  The double that an exact result is rounded to (round to nearest, ties to even): 53
  significant bits, exponents from -1022 (below, the spacing stays \<open>2^-1074\<close>) to 1023
  (above, the result is an infinity). A result that rounds to zero keeps its sign.
\<close>

definition double :: "rat \<Rightarrow> number" where
  "double x =
     (if x = 0 then Finite 0
      else
        let a = \<bar>x\<bar>;
            e = max (ilog2 a) (- 1022);
            u = pow2 (e - 52);
            n = roundHalfEven (a / u)
        in if 1023 < e \<or> (e = 1023 \<and> 2 ^ 53 \<le> n)
           then (if 0 < x then PosInfinity else NegInfinity)
           else if n = 0 then (if 0 < x then Finite 0 else NegZero)
           else Finite (if 0 < x then of_int n * u else - (of_int n * u)))"

text \<open>The sign bit, and the tests for a zero and for an infinity.\<close>

fun isNegative :: "number \<Rightarrow> bool" where
  "isNegative (Finite x) = (x < 0)"
| "isNegative NegZero = True"
| "isNegative PosInfinity = False"
| "isNegative NegInfinity = True"
| "isNegative NaN = False"

fun isZero :: "number \<Rightarrow> bool" where
  "isZero (Finite x) = (x = 0)"
| "isZero NegZero = True"
| "isZero x = False"

fun isInfinite :: "number \<Rightarrow> bool" where
  "isInfinite PosInfinity = True"
| "isInfinite NegInfinity = True"
| "isInfinite x = False"

fun valueOf :: "number \<Rightarrow> rat" where
  "valueOf (Finite x) = x"
| "valueOf x = 0"

definition signedZero :: "bool \<Rightarrow> number" where
  "signedZero negative = (if negative then NegZero else Finite 0)"

definition signedInfinity :: "bool \<Rightarrow> number" where
  "signedInfinity negative = (if negative then NegInfinity else PosInfinity)"

text \<open>
  \<open>x + y\<close>: the rounded exact sum; \<open>-0 + -0\<close> is \<open>-0\<close>, every other exact sum of
  zero is \<open>+0\<close>; opposite infinities give \<open>NaN\<close>.
\<close>

fun plus_number :: "number \<Rightarrow> number \<Rightarrow> number" where
  "plus_number NaN y = NaN"
| "plus_number x NaN = NaN"
| "plus_number PosInfinity NegInfinity = NaN"
| "plus_number NegInfinity PosInfinity = NaN"
| "plus_number PosInfinity y = PosInfinity"
| "plus_number x PosInfinity = PosInfinity"
| "plus_number NegInfinity y = NegInfinity"
| "plus_number x NegInfinity = NegInfinity"
| "plus_number NegZero y = y"
| "plus_number x NegZero = x"
| "plus_number (Finite x) (Finite y) = double (x + y)"

text \<open>\<open>x - y\<close> is \<open>x + (-y)\<close>.\<close>

fun negate :: "number \<Rightarrow> number" where
  "negate (Finite x) = (if x = 0 then NegZero else Finite (- x))"
| "negate NegZero = Finite 0"
| "negate PosInfinity = NegInfinity"
| "negate NegInfinity = PosInfinity"
| "negate NaN = NaN"

definition minus_number :: "number \<Rightarrow> number \<Rightarrow> number" where
  "minus_number x y = plus_number x (negate y)"

text \<open>
  \<open>x * y\<close> and \<open>x / y\<close>: the rounded exact result, its sign the product of the signs,
  also for a zero or an infinity. A zero divisor gives \<open>NaN\<close> or an infinity, never an
  exception.
\<close>

definition times_number :: "number \<Rightarrow> number \<Rightarrow> number" where
  "times_number x y =
     (if x = NaN \<or> y = NaN then NaN
      else if isInfinite x \<or> isInfinite y
        then (if isZero x \<or> isZero y then NaN
              else signedInfinity (isNegative x \<noteq> isNegative y))
      else if isZero x \<or> isZero y then signedZero (isNegative x \<noteq> isNegative y)
      else double (valueOf x * valueOf y))"

definition divide_number :: "number \<Rightarrow> number \<Rightarrow> number" where
  "divide_number x y =
     (if x = NaN \<or> y = NaN then NaN
      else if isInfinite x
        then (if isInfinite y then NaN else signedInfinity (isNegative x \<noteq> isNegative y))
      else if isInfinite y then signedZero (isNegative x \<noteq> isNegative y)
      else if isZero y
        then (if isZero x then NaN else signedInfinity (isNegative x \<noteq> isNegative y))
      else if isZero x then signedZero (isNegative x \<noteq> isNegative y)
      else double (valueOf x / valueOf y))"

text \<open>\<open>x < y\<close>: false when either is \<open>NaN\<close>; the two zeros are equal.\<close>

fun less_number :: "number \<Rightarrow> number \<Rightarrow> bool" where
  "less_number NaN y = False"
| "less_number x NaN = False"
| "less_number PosInfinity y = False"
| "less_number x NegInfinity = False"
| "less_number x PosInfinity = True"
| "less_number NegInfinity y = True"
| "less_number x y = (valueOf x < valueOf y)"

text \<open>
  \<open>Math.round\<close>: the nearest integer, a tie going up; the result is \<open>-0\<close> for a
  negative number from \<open>-0.5\<close> on.
\<close>

fun Math_round :: "number \<Rightarrow> number" where
  "Math_round (Finite x) =
     (let n = \<lfloor>x + 1 / 2\<rfloor> in if n = 0 \<and> x < 0 then NegZero else Finite (of_int n))"
| "Math_round x = x"

text \<open>\<open>Math.max\<close> and \<open>Math.min\<close>: \<open>NaN\<close> when either is; \<open>+0\<close> is larger than \<open>-0\<close>.\<close>

definition Math_max :: "number \<Rightarrow> number \<Rightarrow> number" where
  "Math_max x y =
     (if x = NaN \<or> y = NaN then NaN
      else if less_number x y then y
      else if less_number y x then x
      else if x = NegZero then y else x)"

definition Math_min :: "number \<Rightarrow> number \<Rightarrow> number" where
  "Math_min x y =
     (if x = NaN \<or> y = NaN then NaN
      else if less_number x y then x
      else if less_number y x then y
      else if x = NegZero then x else y)"

text \<open>
  A year of a \<open>TimePeriod\<close> as a JavaScript number: the double nearest to the integer,
  which is the integer itself up to \<open>2^53\<close> in magnitude.
\<close>

definition toNumber :: "int \<Rightarrow> number" where
  "toNumber i = double (of_int i)"

subsection \<open>Configuration\<close>

record Config =
  PIXELS_PER_YEAR :: number
  TIMELINE_PADDING :: number
  MOVEMENT_HEIGHT :: number
  MOVEMENT_SPACING :: number

definition TIMELINE_CONFIG :: Config where
  "TIMELINE_CONFIG =
     \<lparr>PIXELS_PER_YEAR = Finite 2, TIMELINE_PADDING = Finite 100,
      MOVEMENT_HEIGHT = Finite 60, MOVEMENT_SPACING = Finite 10\<rparr>"

subsection \<open>Axis mapping\<close>

definition yearToScrollOffset :: "number \<Rightarrow> TimePeriod \<Rightarrow> Config \<Rightarrow> number" where
  "yearToScrollOffset year timeRange config =
     (let startYear = toNumber (start timeRange);
          yearOffset = minus_number year startYear
      in plus_number (TIMELINE_PADDING config)
           (times_number yearOffset (PIXELS_PER_YEAR config)))"

definition scrollOffsetToYear :: "number \<Rightarrow> TimePeriod \<Rightarrow> Config \<Rightarrow> number" where
  "scrollOffsetToYear scrollOffset timeRange config =
     (let startYear = toNumber (start timeRange);
          adjustedOffset = minus_number scrollOffset (TIMELINE_PADDING config);
          yearOffset = divide_number adjustedOffset (PIXELS_PER_YEAR config)
      in Math_round (plus_number startYear yearOffset))"

subsection \<open>Overlap test\<close>

definition movementsOverlap :: "Movement \<Rightarrow> Movement \<Rightarrow> bool" where
  "movementsOverlap movement1 movement2 =
     (let start1 = start (period movement1);
          end1 = (case end' (period movement1) of None \<Rightarrow> start1 | Some e \<Rightarrow> e);
          start2 = start (period movement2);
          end2 = (case end' (period movement2) of None \<Rightarrow> start2 | Some e \<Rightarrow> e)
      in \<not> (end1 \<le> start2 \<or> end2 \<le> start1))"

subsection \<open>Column arrangement\<close>

text \<open>
  \<open>columns\<close> is the dictionary from a column index to the entries
  \<open>{ movement, originalIndex }\<close> placed in that column; \<open>None\<close> is an absent key.
\<close>

type_synonym entry = "mref \<times> int"
type_synonym columns = "int \<Rightarrow> entry list option"

text \<open>\<open>xs.indexOf(x)\<close>: the first index holding \<open>x\<close>, or \<open>-1\<close>.\<close>

fun indexOf :: "'a list \<Rightarrow> 'a \<Rightarrow> int" where
  "indexOf [] x = - 1"
| "indexOf (y # ys) x =
     (if y = x then 0 else (let i = indexOf ys x in if i < 0 then - 1 else i + 1))"

text \<open>\<open>if (!columns[c]) columns[c] = []\<close>; an array, even an empty one, is truthy.\<close>

definition ensureColumn :: "columns \<Rightarrow> int \<Rightarrow> columns" where
  "ensureColumn cols c = (case cols c of None \<Rightarrow> cols(c \<mapsto> []) | Some es \<Rightarrow> cols)"

definition columnEntries :: "columns \<Rightarrow> int \<Rightarrow> entry list" where
  "columnEntries cols c = (case cols c of None \<Rightarrow> [] | Some es \<Rightarrow> es)"

text \<open>\<open>entries.some(col => movementsOverlap(movement, col.movement))\<close>\<close>

definition someOverlap :: "heap \<Rightarrow> mref \<Rightarrow> entry list \<Rightarrow> bool" where
  "someOverlap h movement es =
     list_ex (\<lambda>col. movementsOverlap (h movement) (h (fst col))) es"

definition push :: "columns \<Rightarrow> int \<Rightarrow> entry \<Rightarrow> columns" where
  "push cols c e = cols(c \<mapsto> columnEntries cols c @ [e])"

text \<open>
  \<open>columnAssignments[originalIndex] = c\<close>. The index comes from \<open>indexOf\<close>; at \<open>-1\<close>
  the store creates a property of that name and leaves the elements alone.
\<close>

definition setAssignment :: "int list \<Rightarrow> int \<Rightarrow> int \<Rightarrow> int list" where
  "setAssignment asg i v = (if 0 \<le> i \<and> i < int (length asg) then asg[nat i := v] else asg)"

text \<open>
  The \<open>while (true)\<close> loop that probes the side columns. A run that never leaves the
  loop is the value \<open>None\<close>.
\<close>

partial_function (option) probe ::
  "heap \<Rightarrow> mref \<Rightarrow> int \<Rightarrow> columns \<Rightarrow> int list \<Rightarrow> nat \<Rightarrow> bool \<Rightarrow> (columns \<times> int list) option"
where
  "probe h movement originalIndex cols asg columnIndex useLeftSide =
     (let currentColumn = (if useLeftSide then - int columnIndex else int columnIndex);
          cols1 = ensureColumn cols currentColumn;
          hasOverlap = someOverlap h movement (columnEntries cols1 currentColumn)
      in if \<not> hasOverlap
         then Some (push cols1 currentColumn (movement, originalIndex),
                    setAssignment asg originalIndex currentColumn)
         else if useLeftSide
           then probe h movement originalIndex cols1 asg columnIndex False
           else probe h movement originalIndex cols1 asg (columnIndex + 1) True)"

declare probe.simps [code]

text \<open>The body of the \<open>forEach\<close> callback, for one movement of the sorted copy.\<close>

definition place ::
  "heap \<Rightarrow> mref list \<Rightarrow> mref \<Rightarrow> columns \<times> int list \<Rightarrow> (columns \<times> int list) option"
where
  "place h movements movement st =
     (let cols = fst st; asg = snd st;
          originalIndex = indexOf movements movement;
          cols1 = ensureColumn cols 0;
          centerHasOverlap = someOverlap h movement (columnEntries cols1 0)
      in if \<not> centerHasOverlap
         then Some (push cols1 0 (movement, originalIndex), setAssignment asg originalIndex 0)
         else probe h movement originalIndex cols1 asg 1 True)"

fun forEach ::
  "heap \<Rightarrow> mref list \<Rightarrow> mref list \<Rightarrow> columns \<times> int list \<Rightarrow> (columns \<times> int list) option"
where
  "forEach h movements [] st = Some st"
| "forEach h movements (m # rest) st =
     (case place h movements m st of
        None \<Rightarrow> None
      | Some st' \<Rightarrow> forEach h movements rest st')"

text \<open>
  \<open>[...movements].sort((a, b) => a.period.start - b.period.start)\<close>: a stable sort by
  start year.
\<close>

definition sortedMovements :: "heap \<Rightarrow> mref list \<Rightarrow> mref list" where
  "sortedMovements h movements = sort_key (\<lambda>r. start (period (h r))) movements"

definition initialState :: "mref list \<Rightarrow> columns \<times> int list" where
  "initialState movements = (Map.empty, replicate (length movements) 0)"

definition arrangeMovementsInColumns :: "heap \<Rightarrow> mref list \<Rightarrow> int list option" where
  "arrangeMovementsInColumns h movements =
     map_option snd
       (forEach h movements (sortedMovements h movements) (initialState movements))"

subsection \<open>Formatting\<close>

text \<open>
  \<open>n.toString()\<close> for an integer: its decimal digits, with a minus sign when negative
  (the exponent notation of magnitudes from \<open>10^21\<close> on is not represented).
\<close>

definition digitChar :: "nat \<Rightarrow> char" where
  "digitChar d = ''0123456789'' ! d"

function natToString :: "nat \<Rightarrow> string" where
  "natToString n =
     (if n < 10 then [digitChar n] else natToString (n div 10) @ [digitChar (n mod 10)])"
  by pat_completeness auto
termination
  by (relation "measure (\<lambda>n. n)") auto

definition toString :: "int \<Rightarrow> string" where
  "toString i = (if i < 0 then CHR ''-'' # natToString (nat (- i)) else natToString (nat i))"

definition formatYearRange :: "TimePeriod \<Rightarrow> string" where
  "formatYearRange p =
     (case end' p of
        None \<Rightarrow> toString (start p)
      | Some e \<Rightarrow>
          if e = 0 \<or> start p = e then toString (start p)
          else toString (start p) @ '' - '' @ toString e)"

section \<open>Time indicator (src/components/TimeIndicator.tsx)\<close>

definition formatRange :: "TimePeriod \<Rightarrow> string" where
  "formatRange visibleRange =
     (case end' visibleRange of
        None \<Rightarrow> toString (start visibleRange)
      | Some e \<Rightarrow>
          if e = 0 \<or> start visibleRange = e then toString (start visibleRange)
          else toString (start visibleRange) @ '' - '' @ toString e)"

section \<open>Timeline component (src/components/Timeline.tsx)\<close>

definition zoomedConfig :: "number \<Rightarrow> Config" where
  "zoomedConfig zoomLevel =
     TIMELINE_CONFIG
       \<lparr>PIXELS_PER_YEAR := times_number (PIXELS_PER_YEAR TIMELINE_CONFIG) zoomLevel\<rparr>"

text \<open>The object \<open>newRange\<close>; both fields are always present.\<close>

record VisibleRange =
  rangeStart :: number
  rangeEnd :: number

text \<open>\<open>timeRange.end || timeRange.start\<close>: an end of \<open>0\<close> is falsy, like an absent one.\<close>

definition endOrStart :: "TimePeriod \<Rightarrow> int" where
  "endOrStart timeRange =
     (case end' timeRange of
        None \<Rightarrow> start timeRange
      | Some e \<Rightarrow> if e = 0 then start timeRange else e)"

definition updateVisibleRange ::
  "number \<Rightarrow> number \<Rightarrow> TimePeriod \<Rightarrow> Config \<Rightarrow> VisibleRange"
where
  "updateVisibleRange offset screenHeight timeRange config =
     (let viewportHeight = minus_number screenHeight (Finite 200);
          startYear = scrollOffsetToYear offset timeRange config;
          endYear = scrollOffsetToYear (plus_number offset viewportHeight) timeRange config
      in \<lparr>rangeStart = Math_max startYear (toNumber (start timeRange)),
          rangeEnd = Math_min endYear (toNumber (endOrStart timeRange))\<rparr>)"

text \<open>
  The state that the handlers of the component write: the offset of the last scroll event
  and the visible range.
\<close>

record TimelineState =
  scrollOffset :: number
  visibleRange :: VisibleRange

text \<open>
  \<open>handleScroll\<close>: the offset of the event is stored, and the range is computed from it with
  the config of the current zoom level.
\<close>

definition handleScroll :: "number \<Rightarrow> number \<Rightarrow> TimePeriod \<Rightarrow> number \<Rightarrow> TimelineState" where
  "handleScroll offset screenHeight timeRange zoomLevel =
     \<lparr>scrollOffset = offset,
      visibleRange = updateVisibleRange offset screenHeight timeRange (zoomedConfig zoomLevel)\<rparr>"

text \<open>
  The effect \<open>updateVisibleRange(scrollOffset)\<close> that runs when the zoom level changes: the
  range is computed from the stored offset with the config of the new zoom level.
\<close>

definition zoomEffect :: "number \<Rightarrow> TimePeriod \<Rightarrow> number \<Rightarrow> TimelineState \<Rightarrow> TimelineState" where
  "zoomEffect screenHeight timeRange zoomLevel st =
     st\<lparr>visibleRange :=
          updateVisibleRange (scrollOffset st) screenHeight timeRange (zoomedConfig zoomLevel)\<rparr>"

section \<open>The probe order, as the specification words it\<close>

text \<open>
  The specification lists the side columns in the order \<open>-1, +1, -2, +2, -3, +3, ...\<close>:
  \<open>probeColumn n\<close> is the \<open>n\<close>-th column of that list, counted from \<open>0\<close>.
\<close>

definition probeColumn :: "nat \<Rightarrow> int" where
  "probeColumn n = (if even n then - int (n div 2 + 1) else int (n div 2 + 1))"

text \<open>
  \<open>chosenColumn h m cols c\<close>: \<open>c\<close> is the first column, in the order
  \<open>0, -1, +1, -2, +2, ...\<close>, none of whose entries overlaps the movement \<open>m\<close>.
\<close>

definition chosenColumn :: "heap \<Rightarrow> mref \<Rightarrow> columns \<Rightarrow> int \<Rightarrow> bool" where
  "chosenColumn h m cols c \<longleftrightarrow>
     \<not> someOverlap h m (columnEntries cols c) \<and>
     (c = 0 \<or>
      (someOverlap h m (columnEntries cols 0) \<and>
       (\<exists>p. c = probeColumn p \<and> (\<forall>q<p. someOverlap h m (columnEntries cols (probeColumn q))))))"

text \<open>
  The number of placed movements that overlap a candidate, and the entries of a column
  once the movements \<open>placed\<close> are done, for the reason the specification gives for the
  end of the probe loop.
\<close>

definition overlappingCount :: "heap \<Rightarrow> mref \<Rightarrow> mref list \<Rightarrow> nat" where
  "overlappingCount h candidate placed =
     length (filter (\<lambda>r. movementsOverlap (h candidate) (h r)) placed)"

definition columnAfter :: "heap \<Rightarrow> mref list \<Rightarrow> mref list \<Rightarrow> int \<Rightarrow> entry list option" where
  "columnAfter h movements placed c =
     map_option (\<lambda>st. columnEntries (fst st) c) (forEach h movements placed (initialState movements))"

text \<open>
  The number of entries of a column that overlap a movement, and the sum of these
  numbers over the columns from \<open>-n\<close> to \<open>n\<close>.
\<close>

definition overlapsIn :: "heap \<Rightarrow> mref \<Rightarrow> entry list \<Rightarrow> nat" where
  "overlapsIn h movement es =
     length (filter (\<lambda>col. movementsOverlap (h movement) (h (fst col))) es)"

definition columnsCount :: "heap \<Rightarrow> mref \<Rightarrow> columns \<Rightarrow> nat \<Rightarrow> nat" where
  "columnsCount h movement cols n =
     (\<Sum>c \<in> {- int n..int n}. overlapsIn h movement (columnEntries cols c))"

section \<open>Invariants of the arrangement\<close>

text \<open>
  What holds of the state of \<open>forEach\<close> once the movements \<open>placed\<close> are done:
  the assignments have the length of the input; no column farther from the centre than
  the number of placed movements is occupied; two different movements of one column do
  not overlap; every placed movement is an entry of the column that the assignment at its
  \<open>indexOf\<close> names; and an index that \<open>indexOf\<close> never returns still holds \<open>0\<close>.
\<close>

definition columnsInv :: "heap \<Rightarrow> mref list \<Rightarrow> mref list \<Rightarrow> columns \<times> int list \<Rightarrow> bool" where
  "columnsInv h ms placed st \<longleftrightarrow>
     length (snd st) = length ms \<and>
     (\<forall>c. int (length placed) < \<bar>c\<bar> \<longrightarrow> columnEntries (fst st) c = []) \<and>
     (\<forall>c. \<forall>e \<in> set (columnEntries (fst st) c). \<forall>e' \<in> set (columnEntries (fst st) c).
         fst e \<noteq> fst e' \<longrightarrow> \<not> movementsOverlap (h (fst e)) (h (fst e'))) \<and>
     (\<forall>r \<in> set placed. r \<in> fst ` set (columnEntries (fst st) (snd st ! nat (indexOf ms r)))) \<and>
     (\<forall>j < length ms. (\<forall>m. indexOf ms m \<noteq> int j) \<longrightarrow> snd st ! j = 0)"

text \<open>Two dictionaries hold the same movements, column by column.\<close>

definition sameColumns :: "columns \<Rightarrow> columns \<Rightarrow> bool" where
  "sameColumns cols cols' \<longleftrightarrow>
     (\<forall>c. map fst (columnEntries cols c) = map fst (columnEntries cols' c))"

section \<open>Example inputs\<close>

definition mkMovement :: "string \<Rightarrow> int \<Rightarrow> int option \<Rightarrow> Movement" where
  "mkMovement i s e =
     \<lparr>id' = i, name = ''Movement'', period = \<lparr>start = s, end' = e\<rparr>,
      description = ''Test'', shortDescription = ''Test'', color = ''#000000'',
      region = None, keyArtists = None, keyWorks = None, imageUrl = None\<rparr>"

text \<open>
  The two overlapping movements of the unit test at the references 0 and 1, and a third
  one that starts where the first ends.
\<close>

definition testHeap :: heap where
  "testHeap =
     (\<lambda>r. if r = 0 then mkMovement ''test1'' 1400 (Some 1600)
          else if r = 1 then mkMovement ''test2'' 1500 (Some 1700)
          else mkMovement ''test3'' 1600 (Some 1750))"

text \<open>
  Six movements 0-10 at the references 0 to 5, one movement 5-100 at the reference 6,
  and movements 50-60 at all later references.
\<close>

definition crowdedHeap :: heap where
  "crowdedHeap =
     (\<lambda>r. if r < 6 then mkMovement ''early'' 0 (Some 10)
          else if r = 6 then mkMovement ''long'' 5 (Some 100)
          else mkMovement ''late'' 50 (Some 60))"

text \<open>
  The movement 1400-1600 of the unit test at every reference: different objects that are
  equal as values.
\<close>

definition sameValueHeap :: heap where
  "sameValueHeap = (\<lambda>r. mkMovement ''test1'' 1400 (Some 1600))"

section \<open>Lists and columns\<close>

lemma movementsOverlap_sym: "movementsOverlap a b = movementsOverlap b a"
  by (auto simp add: movementsOverlap_def Let_def)

lemma indexOf_notin: "x \<notin> set xs \<Longrightarrow> indexOf xs x = - 1"
  by (induction xs) (auto simp add: Let_def)

lemma indexOf_range: "x \<in> set xs \<Longrightarrow> 0 \<le> indexOf xs x \<and> indexOf xs x < int (length xs)"
  by (induction xs) (auto simp add: Let_def)

lemma indexOf_nth: "x \<in> set xs \<Longrightarrow> xs ! nat (indexOf xs x) = x"
proof (induction xs)
  case Nil
  then show ?case by simp
next
  case (Cons y ys)
  show ?case
  proof (cases "y = x")
    case True
    then show ?thesis by simp
  next
    case False
    with Cons.prems have xin: "x \<in> set ys" by simp
    from indexOf_range [OF xin] have "0 \<le> indexOf ys x" by simp
    then have "nat (indexOf ys x + 1) = Suc (nat (indexOf ys x))" by simp
    with False Cons.IH [OF xin] \<open>0 \<le> indexOf ys x\<close> show ?thesis
      by (simp add: Let_def)
  qed
qed

lemma indexOf_first: "j < nat (indexOf xs x) \<Longrightarrow> xs ! j \<noteq> x"
proof (induction xs arbitrary: j)
  case Nil
  then show ?case by simp
next
  case (Cons y ys)
  show ?case
  proof (cases "y = x")
    case True
    with Cons.prems show ?thesis by simp
  next
    case False
    show ?thesis
    proof (cases j)
      case 0
      with False show ?thesis by simp
    next
      case (Suc k)
      from Cons.prems False have "0 \<le> indexOf ys x"
        by (auto simp add: Let_def split: if_splits)
      with Cons.prems False Suc have "k < nat (indexOf ys x)"
        by (auto simp add: Let_def split: if_splits)
      from Cons.IH [OF this] Suc show ?thesis by simp
    qed
  qed
qed

lemma indexOf_in: "0 \<le> indexOf xs x \<Longrightarrow> x \<in> set xs"
  using indexOf_notin [of x xs] by fastforce

lemma indexOf_distinct: "distinct xs \<Longrightarrow> i < length xs \<Longrightarrow> indexOf xs (xs ! i) = int i"
proof -
  assume d: "distinct xs" and i: "i < length xs"
  then have xin: "xs ! i \<in> set xs" by simp
  from indexOf_range [OF xin] have r: "nat (indexOf xs (xs ! i)) < length xs" by linarith
  from indexOf_nth [OF xin] d i r have "nat (indexOf xs (xs ! i)) = i"
    by (simp add: nth_eq_iff_index_eq)
  with indexOf_range [OF xin] show ?thesis by linarith
qed

lemma indexOf_inj:
  "x \<in> set xs \<Longrightarrow> y \<in> set xs \<Longrightarrow> indexOf xs x = indexOf xs y \<Longrightarrow> x = y"
  by (metis indexOf_nth)

lemma indexOf_later:
  assumes "i < j" and "j < length xs" and "xs ! i = xs ! j"
  shows "indexOf xs m \<noteq> int j"
proof
  assume eq: "indexOf xs m = int j"
  then have "m \<in> set xs" using indexOf_in [of xs m] by simp
  from indexOf_nth [OF this] eq have "xs ! j = m" by simp
  moreover from indexOf_first [of i xs m] eq assms(1) have "xs ! i \<noteq> m" by simp
  ultimately show False using assms(3) by simp
qed

lemma columnEntries_ensureColumn [simp]:
  "columnEntries (ensureColumn cols c) c' = columnEntries cols c'"
  by (simp add: columnEntries_def ensureColumn_def split: option.splits)

lemma push_ensureColumn [simp]: "push (ensureColumn cols c) c e = push cols c e"
  by (simp add: push_def) (simp add: ensureColumn_def split: option.splits)

lemma ensureColumn_occupied: "columnEntries cols c \<noteq> [] \<Longrightarrow> ensureColumn cols c = cols"
  by (simp add: columnEntries_def ensureColumn_def split: option.splits)

lemma columnEntries_push:
  "columnEntries (push cols c e) c' = (if c' = c then columnEntries cols c @ [e] else columnEntries cols c')"
  by (simp add: push_def columnEntries_def)

lemma someOverlap_iff:
  "someOverlap h m es \<longleftrightarrow> (\<exists>r \<in> fst ` set es. movementsOverlap (h m) (h r))"
  by (auto simp add: someOverlap_def list_ex_iff)

lemma someOverlap_empty [simp]: "\<not> someOverlap h m []"
  by (simp add: someOverlap_def)

lemma abs_probeColumn: "\<bar>probeColumn n\<bar> = int (n div 2) + 1"
  by (simp add: probeColumn_def)

lemma probe_step_free:
  assumes "\<not> someOverlap h m (columnEntries cols (probeColumn n))"
  shows "probe h m oi cols asg (Suc (n div 2)) (even n)
           = Some (push cols (probeColumn n) (m, oi), setAssignment asg oi (probeColumn n))"
proof (cases "even n")
  case True
  with assms have "\<not> someOverlap h m (columnEntries cols (- int (Suc (n div 2))))"
    by (simp add: probeColumn_def)
  with True show ?thesis
    by (subst probe.simps) (simp add: probeColumn_def Let_def)
next
  case False
  with assms have "\<not> someOverlap h m (columnEntries cols (int (Suc (n div 2))))"
    by (simp add: probeColumn_def)
  with False show ?thesis
    by (subst probe.simps) (simp add: probeColumn_def Let_def)
qed

lemma probe_step_taken:
  assumes "someOverlap h m (columnEntries cols (probeColumn n))"
  shows "probe h m oi cols asg (Suc (n div 2)) (even n)
           = probe h m oi cols asg (Suc (Suc n div 2)) (even (Suc n))"
proof -
  from assms have ne: "columnEntries cols (probeColumn n) \<noteq> []" by auto
  show ?thesis
  proof (cases "even n")
    case True
    then have "Suc n div 2 = n div 2" by simp
    from True assms have "someOverlap h m (columnEntries cols (- int (Suc (n div 2))))"
      by (simp add: probeColumn_def)
    moreover from True ensureColumn_occupied [OF ne]
    have "ensureColumn cols (- int (Suc (n div 2))) = cols"
      by (simp add: probeColumn_def)
    ultimately show ?thesis using True \<open>Suc n div 2 = n div 2\<close>
      by (subst probe.simps) (simp add: Let_def)
  next
    case False
    then have "Suc n div 2 = n div 2 + 1" by (simp add: odd_iff_mod_2_eq_one div_Suc)
    from False assms have "someOverlap h m (columnEntries cols (int (Suc (n div 2))))"
      by (simp add: probeColumn_def)
    moreover from False ensureColumn_occupied [OF ne]
    have "ensureColumn cols (int (Suc (n div 2))) = cols"
      by (simp add: probeColumn_def)
    ultimately show ?thesis using False \<open>Suc n div 2 = n div 2 + 1\<close>
      by (subst probe.simps) (simp add: Let_def)
  qed
qed

lemma probe_finds:
  assumes bound: "\<And>c. int N < \<bar>c\<bar> \<Longrightarrow> columnEntries cols c = []"
  shows "\<exists>p\<ge>n. \<not> someOverlap h m (columnEntries cols (probeColumn p)) \<and>
           (\<forall>q. n \<le> q \<and> q < p \<longrightarrow> someOverlap h m (columnEntries cols (probeColumn q))) \<and>
           p \<le> max n (2 * N) \<and>
           probe h m oi cols asg (Suc (n div 2)) (even n)
             = Some (push cols (probeColumn p) (m, oi), setAssignment asg oi (probeColumn p))"
proof (induction "2 * N - n" arbitrary: n)
  case 0
  then have "int N < \<bar>probeColumn n\<bar>" by (simp add: abs_probeColumn)
  from bound [OF this] have free: "\<not> someOverlap h m (columnEntries cols (probeColumn n))"
    by simp
  show ?case
    by (rule exI [of _ n]) (auto simp add: free probe_step_free)
next
  case (Suc k)
  show ?case
  proof (cases "someOverlap h m (columnEntries cols (probeColumn n))")
    case False
    show ?thesis
      by (rule exI [of _ n]) (auto simp add: False probe_step_free)
  next
    case True
    from Suc.hyps(2) have k: "k = 2 * N - Suc n" and lt: "n < 2 * N" by simp_all
    from Suc.hyps(1) [OF k] obtain p where p: "Suc n \<le> p"
      "\<not> someOverlap h m (columnEntries cols (probeColumn p))"
      "\<forall>q. Suc n \<le> q \<and> q < p \<longrightarrow> someOverlap h m (columnEntries cols (probeColumn q))"
      "p \<le> max (Suc n) (2 * N)"
      "probe h m oi cols asg (Suc (Suc n div 2)) (even (Suc n))
             = Some (push cols (probeColumn p) (m, oi), setAssignment asg oi (probeColumn p))"
      by blast
    have least: "\<forall>q. n \<le> q \<and> q < p \<longrightarrow> someOverlap h m (columnEntries cols (probeColumn q))"
    proof (intro allI impI)
      fix q assume q: "n \<le> q \<and> q < p"
      show "someOverlap h m (columnEntries cols (probeColumn q))"
      proof (cases "q = n")
        case True
        with \<open>someOverlap h m (columnEntries cols (probeColumn n))\<close> show ?thesis by simp
      next
        case False
        with q have "Suc n \<le> q \<and> q < p" by simp
        with p(3) show ?thesis by blast
      qed
    qed
    from p(4) lt have "p \<le> max n (2 * N)" by simp
    with p(1,2,5) least probe_step_taken [OF True, of oi asg] show ?thesis
      by (intro exI [of _ p]) simp
  qed
qed

lemma place_result:
  assumes bound: "\<And>c. int N < \<bar>c\<bar> \<Longrightarrow> columnEntries cols c = []"
  shows "\<exists>c. place h ms m (cols, asg)
               = Some (push cols c (m, indexOf ms m), setAssignment asg (indexOf ms m) c) \<and>
             chosenColumn h m cols c \<and> \<bar>c\<bar> \<le> int N + 1"
proof (cases "someOverlap h m (columnEntries cols 0)")
  case False
  then show ?thesis
    by (intro exI [of _ 0]) (simp add: place_def Let_def chosenColumn_def)
next
  case True
  then have ne: "columnEntries cols 0 \<noteq> []" by auto
  from probe_finds [of N cols 0 h m "indexOf ms m" asg, OF bound]
  obtain p where p: "\<not> someOverlap h m (columnEntries cols (probeColumn p))"
      "\<forall>q<p. someOverlap h m (columnEntries cols (probeColumn q))"
      "p \<le> 2 * N"
      "probe h m (indexOf ms m) cols asg 1 True
         = Some (push cols (probeColumn p) (m, indexOf ms m),
                 setAssignment asg (indexOf ms m) (probeColumn p))"
    by auto
  from p(3) have "\<bar>probeColumn p\<bar> \<le> int N + 1" by (simp add: abs_probeColumn)
  with p(1,2,4) True ensureColumn_occupied [OF ne] show ?thesis
    by (intro exI [of _ "probeColumn p"]) (auto simp add: place_def Let_def chosenColumn_def)
qed

lemma chosenColumn_unique:
  assumes "chosenColumn h m cols c" and "chosenColumn h m cols' c'"
    and same: "\<And>d. someOverlap h m (columnEntries cols d) = someOverlap h m (columnEntries cols' d)"
  shows "c = c'"
proof -
  from assms(1) have f: "\<not> someOverlap h m (columnEntries cols c)" by (simp add: chosenColumn_def)
  from assms(2) have f': "\<not> someOverlap h m (columnEntries cols c')" by (simp add: chosenColumn_def same)
  show ?thesis
  proof (cases "someOverlap h m (columnEntries cols 0)")
    case False
    with assms(1,2) same show ?thesis by (auto simp add: chosenColumn_def)
  next
    case True
    with assms(1) f obtain p where p: "c = probeColumn p"
      "\<forall>q<p. someOverlap h m (columnEntries cols (probeColumn q))"
      by (auto simp add: chosenColumn_def)
    from True assms(2) f' obtain p' where p': "c' = probeColumn p'"
      "\<forall>q<p'. someOverlap h m (columnEntries cols (probeColumn q))"
      by (auto simp add: chosenColumn_def same)
    have "\<not> p < p'" using p'(2) f p(1) by auto
    moreover have "\<not> p' < p" using p(2) f' p'(1) by auto
    ultimately show ?thesis using p(1) p'(1) by simp
  qed
qed

section \<open>The invariant is kept\<close>

lemma columnsInv_length: "columnsInv h ms placed (cols, asg) \<Longrightarrow> length asg = length ms"
  by (simp add: columnsInv_def)

lemma columnsInv_bound:
  "columnsInv h ms placed (cols, asg) \<Longrightarrow> int (length placed) < \<bar>c\<bar> \<Longrightarrow> columnEntries cols c = []"
  by (simp add: columnsInv_def)

lemma columnsInv_pairwise:
  "columnsInv h ms placed (cols, asg) \<Longrightarrow> r \<in> fst ` set (columnEntries cols c) \<Longrightarrow>
   r' \<in> fst ` set (columnEntries cols c) \<Longrightarrow> r \<noteq> r' \<Longrightarrow> \<not> movementsOverlap (h r) (h r')"
  unfolding columnsInv_def fst_conv snd_conv by blast

lemma columnsInv_member:
  "columnsInv h ms placed (cols, asg) \<Longrightarrow> r \<in> set placed \<Longrightarrow>
   r \<in> fst ` set (columnEntries cols (asg ! nat (indexOf ms r)))"
  unfolding columnsInv_def fst_conv snd_conv by blast

lemma columnsInv_zero:
  "columnsInv h ms placed (cols, asg) \<Longrightarrow> j < length ms \<Longrightarrow> (\<And>m. indexOf ms m \<noteq> int j) \<Longrightarrow>
   asg ! j = 0"
  unfolding columnsInv_def fst_conv snd_conv by blast

lemma length_setAssignment [simp]: "length (setAssignment asg i v) = length asg"
  by (simp add: setAssignment_def)

lemma setAssignment_nth:
  "k < length asg \<Longrightarrow>
   setAssignment asg i v ! k = (if int k = i then v else asg ! k)"
  by (auto simp add: setAssignment_def)

lemma columnsInv_initial: "columnsInv h ms [] (initialState ms)"
  by (simp add: columnsInv_def initialState_def columnEntries_def)

lemma columnsInv_step:
  assumes inv: "columnsInv h ms placed (cols, asg)"
    and m: "m \<in> set ms" and sub: "set placed \<subseteq> set ms"
    and ch: "chosenColumn h m cols c" and c: "\<bar>c\<bar> \<le> int (length placed) + 1"
  shows "columnsInv h ms (placed @ [m])
           (push cols c (m, indexOf ms m), setAssignment asg (indexOf ms m) c)"
proof -
  let ?i = "indexOf ms m"
  let ?cols = "push cols c (m, ?i)"
  let ?asg = "setAssignment asg ?i c"
  from inv have len: "length asg = length ms" by (rule columnsInv_length)
  from indexOf_range [OF m] have i: "0 \<le> ?i" "?i < int (length ms)" by simp_all
  from ch have free: "\<And>r. r \<in> fst ` set (columnEntries cols c) \<Longrightarrow> \<not> movementsOverlap (h m) (h r)"
    by (auto simp add: chosenColumn_def someOverlap_iff)
  have 1: "length ?asg = length ms" using len by simp
  have 2: "columnEntries ?cols d = []" if "int (length (placed @ [m])) < \<bar>d\<bar>" for d
  proof -
    from that c have "d \<noteq> c" by auto
    moreover from that have "int (length placed) < \<bar>d\<bar>" by simp
    ultimately show ?thesis using columnsInv_bound [OF inv] by (simp add: columnEntries_push)
  qed
  have 3: "\<not> movementsOverlap (h r) (h r')"
    if "r \<in> fst ` set (columnEntries ?cols d)" "r' \<in> fst ` set (columnEntries ?cols d)" "r \<noteq> r'"
    for d r r'
  proof (cases "d = c")
    case False
    with that columnsInv_pairwise [OF inv, of r d r'] show ?thesis
      by (simp add: columnEntries_push)
  next
    case True
    with that have r: "r = m \<or> r \<in> fst ` set (columnEntries cols c)"
      and r': "r' = m \<or> r' \<in> fst ` set (columnEntries cols c)"
      by (auto simp add: columnEntries_push)
    have old: "\<And>a b. a \<in> fst ` set (columnEntries cols c) \<Longrightarrow>
        b \<in> fst ` set (columnEntries cols c) \<Longrightarrow> a \<noteq> b \<Longrightarrow> \<not> movementsOverlap (h a) (h b)"
      by (rule columnsInv_pairwise [OF inv])
    from r r' that(3) free old show ?thesis
      using movementsOverlap_sym by blast
  qed
  have 4: "r \<in> fst ` set (columnEntries ?cols (?asg ! nat (indexOf ms r)))"
    if "r \<in> set (placed @ [m])" for r
  proof (cases "r = m")
    case True
    from i len have "?asg ! nat ?i = c" by (simp add: setAssignment_nth)
    with True show ?thesis by (simp add: columnEntries_push)
  next
    case False
    with that have rp: "r \<in> set placed" by simp
    with sub have rin: "r \<in> set ms" by auto
    from indexOf_range [OF rin] have ri: "0 \<le> indexOf ms r" "indexOf ms r < int (length ms)"
      by simp_all
    from False indexOf_inj [OF rin m] have "indexOf ms r \<noteq> ?i" by auto
    with ri len have "?asg ! nat (indexOf ms r) = asg ! nat (indexOf ms r)"
      by (simp add: setAssignment_nth)
    moreover from inv rp have "r \<in> fst ` set (columnEntries cols (asg ! nat (indexOf ms r)))"
      by (rule columnsInv_member)
    ultimately show ?thesis by (auto simp add: columnEntries_push)
  qed
  have 5: "?asg ! j = 0" if "j < length ms" "\<forall>m. indexOf ms m \<noteq> int j" for j
  proof -
    from that columnsInv_zero [OF inv, of j] have "asg ! j = 0" by blast
    moreover from that have "int j \<noteq> ?i" by metis
    ultimately show ?thesis using that(1) len by (simp add: setAssignment_nth)
  qed
  show ?thesis
    unfolding columnsInv_def fst_conv snd_conv
    using 1 2 3 4 5 by blast
qed

lemma place_columnsInv:
  assumes inv: "columnsInv h ms placed (cols, asg)"
    and m: "m \<in> set ms" and sub: "set placed \<subseteq> set ms"
  shows "\<exists>c. place h ms m (cols, asg)
               = Some (push cols c (m, indexOf ms m), setAssignment asg (indexOf ms m) c) \<and>
             chosenColumn h m cols c \<and>
             columnsInv h ms (placed @ [m])
               (push cols c (m, indexOf ms m), setAssignment asg (indexOf ms m) c)"
proof -
  have "\<And>c. int (length placed) < \<bar>c\<bar> \<Longrightarrow> columnEntries cols c = []"
    by (rule columnsInv_bound [OF inv])
  from place_result [of "length placed" cols h ms m asg, OF this]
  obtain c where c: "place h ms m (cols, asg)
               = Some (push cols c (m, indexOf ms m), setAssignment asg (indexOf ms m) c)"
    "chosenColumn h m cols c" "\<bar>c\<bar> \<le> int (length placed) + 1"
    by blast
  with columnsInv_step [OF inv m sub c(2,3)] show ?thesis by blast
qed

lemma forEach_columnsInv:
  "columnsInv h ms placed st \<Longrightarrow> set placed \<subseteq> set ms \<Longrightarrow> set xs \<subseteq> set ms \<Longrightarrow>
   \<exists>st'. forEach h ms xs st = Some st' \<and> columnsInv h ms (placed @ xs) st'"
proof (induction xs arbitrary: placed st)
  case Nil
  then show ?case by simp
next
  case (Cons m xs)
  obtain cols asg where st: "st = (cols, asg)" by (cases st)
  from Cons.prems have m: "m \<in> set ms" and xs: "set xs \<subseteq> set ms" by simp_all
  from place_columnsInv [OF Cons.prems(1) [unfolded st] m Cons.prems(2)]
  obtain st1 where st1: "place h ms m st = Some st1" "columnsInv h ms (placed @ [m]) st1"
    using st by blast
  from Cons.prems(2) m have "set (placed @ [m]) \<subseteq> set ms" by simp
  from Cons.IH [OF st1(2) this xs] st1(1) show ?case by simp
qed

lemma set_sortedMovements [simp]: "set (sortedMovements h ms) = set ms"
  by (simp add: sortedMovements_def)

lemma length_sortedMovements [simp]: "length (sortedMovements h ms) = length ms"
  by (simp add: sortedMovements_def)

lemma forEach_prefix:
  "\<exists>st. forEach h ms (take k (sortedMovements h ms)) (initialState ms) = Some st \<and>
        columnsInv h ms (take k (sortedMovements h ms)) st"
proof -
  have "set (take k (sortedMovements h ms)) \<subseteq> set ms"
    using set_take_subset [of k "sortedMovements h ms"] by simp
  from forEach_columnsInv [OF columnsInv_initial _ this, of h] show ?thesis by simp
qed

lemma arrange_columnsInv:
  "\<exists>cols asg. arrangeMovementsInColumns h ms = Some asg \<and>
      columnsInv h ms (sortedMovements h ms) (cols, asg)"
proof -
  from forEach_prefix [of h ms "length ms"] obtain st where
    "forEach h ms (sortedMovements h ms) (initialState ms) = Some st"
    "columnsInv h ms (sortedMovements h ms) st"
    by auto
  then show ?thesis
    by (cases st) (auto simp add: arrangeMovementsInColumns_def)
qed

lemma arrange_distinct:
  assumes d: "distinct ms"
  shows "\<exists>asg. arrangeMovementsInColumns h ms = Some asg \<and> length asg = length ms \<and>
     (\<forall>i j. i < length ms \<and> j < length ms \<and> i \<noteq> j \<and> asg ! i = asg ! j
         \<longrightarrow> \<not> movementsOverlap (h (ms ! i)) (h (ms ! j)))"
proof -
  from arrange_columnsInv [of h ms] obtain cols asg where
    a: "arrangeMovementsInColumns h ms = Some asg"
    and inv: "columnsInv h ms (sortedMovements h ms) (cols, asg)"
    by blast
  have "\<not> movementsOverlap (h (ms ! i)) (h (ms ! j))"
    if ij: "i < length ms" "j < length ms" "i \<noteq> j" "asg ! i = asg ! j" for i j
  proof -
    from columnsInv_member [OF inv, of "ms ! i"] ij(1) d
    have "ms ! i \<in> fst ` set (columnEntries cols (asg ! i))"
      by (simp add: indexOf_distinct)
    moreover from columnsInv_member [OF inv, of "ms ! j"] ij(2) d
    have "ms ! j \<in> fst ` set (columnEntries cols (asg ! i))"
      by (simp add: indexOf_distinct ij(4))
    moreover from d ij have "ms ! i \<noteq> ms ! j" by (simp add: nth_eq_iff_index_eq)
    ultimately show ?thesis by (rule columnsInv_pairwise [OF inv])
  qed
  with a columnsInv_length [OF inv] show ?thesis by blast
qed

lemma probeColumn_left: "probeColumn (2 * k) = - int (Suc k)"
  by (simp add: probeColumn_def)

lemma probeColumn_right: "probeColumn (Suc (2 * k)) = int (Suc k)"
  by (simp add: probeColumn_def)

lemma probe_assignment:
  assumes "probe h m oi cols asg k l = Some st'"
  shows "\<exists>c. snd st' = setAssignment asg oi c"
proof (rule probe.raw_induct
    [where P = "\<lambda>h m oi cols asg k l st'. \<exists>c. snd st' = setAssignment asg oi c", OF _ assms])
  fix probe' :: "heap \<Rightarrow> mref \<Rightarrow> int \<Rightarrow> columns \<Rightarrow> int list \<Rightarrow> nat \<Rightarrow> bool \<Rightarrow> (columns \<times> int list) option"
  fix h m oi cols asg k l st'
  assume IH: "\<And>h m oi cols asg k l st'. probe' h m oi cols asg k l = Some st' \<Longrightarrow>
      \<exists>c. snd st' = setAssignment asg oi c"
  assume eq: "(let currentColumn = if l then - int k else int k;
          cols1 = ensureColumn cols currentColumn;
          hasOverlap = someOverlap h m (columnEntries cols1 currentColumn)
      in if \<not> hasOverlap
         then Some (push cols1 currentColumn (m, oi), setAssignment asg oi currentColumn)
         else if l then probe' h m oi cols1 asg k False
              else probe' h m oi cols1 asg (k + 1) True) = Some st'"
  show "\<exists>c. snd st' = setAssignment asg oi c"
  proof (cases "someOverlap h m (columnEntries cols (if l then - int k else int k))")
    case False
    with eq show ?thesis by (auto simp add: Let_def)
  next
    case True
    with eq have "probe' h m oi (ensureColumn cols (if l then - int k else int k)) asg k False = Some st'
      \<or> probe' h m oi (ensureColumn cols (if l then - int k else int k)) asg (k + 1) True = Some st'"
      by (cases l) (simp_all add: Let_def)
    with IH show ?thesis by blast
  qed
qed

lemma place_assignment:
  assumes "place h ms m (cols, asg) = Some st'"
  shows "\<exists>c. snd st' = setAssignment asg (indexOf ms m) c"
proof (cases "someOverlap h m (columnEntries cols 0)")
  case False
  with assms show ?thesis by (auto simp add: place_def Let_def)
next
  case True
  with assms have "probe h m (indexOf ms m) (ensureColumn cols 0) asg 1 True = Some st'"
    by (simp add: place_def Let_def)
  then show ?thesis by (rule probe_assignment)
qed

section \<open>Two runs over the same sorted list\<close>

lemma sameColumns_someOverlap:
  "sameColumns cols cols' \<Longrightarrow>
   someOverlap h m (columnEntries cols d) = someOverlap h m (columnEntries cols' d)"
proof -
  assume "sameColumns cols cols'"
  then have "set (map fst (columnEntries cols d)) = set (map fst (columnEntries cols' d))"
    by (simp add: sameColumns_def)
  then have "fst ` set (columnEntries cols d) = fst ` set (columnEntries cols' d)" by simp
  then show ?thesis by (simp add: someOverlap_iff)
qed

lemma sameColumns_push:
  "sameColumns cols cols' \<Longrightarrow> sameColumns (push cols c (m, i)) (push cols' c (m, i'))"
  by (simp add: sameColumns_def columnEntries_push)

lemma sameColumns_refl [simp]: "sameColumns cols cols"
  by (simp add: sameColumns_def)

lemma forEach_sim:
  assumes "columnsInv h ms placed st" and "columnsInv h ms' placed st'"
    and "set placed \<subseteq> set ms" and "set placed \<subseteq> set ms'"
    and "set xs \<subseteq> set ms" and "set xs \<subseteq> set ms'"
    and "sameColumns (fst st) (fst st')"
    and "\<forall>r \<in> set placed. snd st ! nat (indexOf ms r) = snd st' ! nat (indexOf ms' r)"
  shows "\<exists>t t'. forEach h ms xs st = Some t \<and> forEach h ms' xs st' = Some t' \<and>
           length (snd t) = length ms \<and> length (snd t') = length ms' \<and>
           (\<forall>r \<in> set (placed @ xs). snd t ! nat (indexOf ms r) = snd t' ! nat (indexOf ms' r))"
  using assms
proof (induction xs arbitrary: placed st st')
  case Nil
  obtain cols asg where st: "st = (cols, asg)" by (cases st)
  obtain cols' asg' where st': "st' = (cols', asg')" by (cases st')
  from Nil.prems(1,2) columnsInv_length st st' have "length asg = length ms" "length asg' = length ms'"
    by blast+
  with Nil.prems(8) st st' show ?case by simp
next
  case (Cons m xs)
  obtain cols asg where st: "st = (cols, asg)" by (cases st)
  obtain cols' asg' where st': "st' = (cols', asg')" by (cases st')
  from Cons.prems have m: "m \<in> set ms" "m \<in> set ms'"
    and xs: "set xs \<subseteq> set ms" "set xs \<subseteq> set ms'" by simp_all
  let ?i = "indexOf ms m" and ?i' = "indexOf ms' m"
  from place_columnsInv [OF Cons.prems(1) [unfolded st] m(1) Cons.prems(3)]
  obtain c where c: "place h ms m (cols, asg) = Some (push cols c (m, ?i), setAssignment asg ?i c)"
    "chosenColumn h m cols c"
    "columnsInv h ms (placed @ [m]) (push cols c (m, ?i), setAssignment asg ?i c)"
    by blast
  from place_columnsInv [OF Cons.prems(2) [unfolded st'] m(2) Cons.prems(4)]
  obtain c' where c': "place h ms' m (cols', asg') = Some (push cols' c' (m, ?i'), setAssignment asg' ?i' c')"
    "chosenColumn h m cols' c'"
    "columnsInv h ms' (placed @ [m]) (push cols' c' (m, ?i'), setAssignment asg' ?i' c')"
    by blast
  from Cons.prems(7) have same: "sameColumns cols cols'" by (simp add: st st')
  from chosenColumn_unique [OF c(2) c'(2) sameColumns_someOverlap [OF same]]
  have cc: "c' = c" by simp
  from columnsInv_length [OF Cons.prems(1) [unfolded st]] have len: "length asg = length ms" .
  from columnsInv_length [OF Cons.prems(2) [unfolded st']] have len': "length asg' = length ms'" .
  from indexOf_range [OF m(1)] have i: "0 \<le> ?i" "?i < int (length ms)" by simp_all
  from indexOf_range [OF m(2)] have i': "0 \<le> ?i'" "?i' < int (length ms')" by simp_all
  have agree: "\<forall>r \<in> set (placed @ [m]).
      snd (push cols c (m, ?i), setAssignment asg ?i c) ! nat (indexOf ms r)
      = snd (push cols' c' (m, ?i'), setAssignment asg' ?i' c') ! nat (indexOf ms' r)"
  proof
    fix r assume r: "r \<in> set (placed @ [m])"
    show "snd (push cols c (m, ?i), setAssignment asg ?i c) ! nat (indexOf ms r)
      = snd (push cols' c' (m, ?i'), setAssignment asg' ?i' c') ! nat (indexOf ms' r)"
    proof (cases "r = m")
      case True
      with i i' len len' cc show ?thesis by (simp add: setAssignment_nth)
    next
      case False
      with r have rp: "r \<in> set placed" by simp
      with Cons.prems(3,4) have rin: "r \<in> set ms" "r \<in> set ms'" by auto
      from indexOf_range [OF rin(1)] have ri: "0 \<le> indexOf ms r" "indexOf ms r < int (length ms)"
        by simp_all
      from indexOf_range [OF rin(2)] have ri': "0 \<le> indexOf ms' r" "indexOf ms' r < int (length ms')"
        by simp_all
      from False indexOf_inj [OF rin(1) m(1)] have ne: "indexOf ms r \<noteq> ?i" by auto
      from False indexOf_inj [OF rin(2) m(2)] have ne': "indexOf ms' r \<noteq> ?i'" by auto
      from Cons.prems(8) rp have "asg ! nat (indexOf ms r) = asg' ! nat (indexOf ms' r)"
        by (simp add: st st')
      with ri ri' ne ne' len len' show ?thesis by (simp add: setAssignment_nth)
    qed
  qed
  from Cons.prems(3,4) m have sub: "set (placed @ [m]) \<subseteq> set ms" "set (placed @ [m]) \<subseteq> set ms'"
    by simp_all
  have same': "sameColumns (fst (push cols c (m, ?i), setAssignment asg ?i c))
      (fst (push cols' c' (m, ?i'), setAssignment asg' ?i' c'))"
    using same cc by (simp add: sameColumns_push)
  from Cons.IH [OF c(3) c'(3) sub xs same' agree] c(1) c'(1) st st'
  show ?case by simp
qed

lemma sort_key_perm_distinct:
  fixes f :: "'a \<Rightarrow> int"
  assumes "mset ys = mset xs" and "distinct (map f xs)"
  shows "sort_key f ys = sort_key f xs"
proof -
  let ?S = "sort_key f xs" and ?T = "sort_key f ys"
  have m: "mset (map f ?S) = mset (map f xs)" "mset (map f ?T) = mset (map f xs)"
    using assms(1) by simp_all
  from m(1) assms(2) have d1: "distinct (map f ?S)" by (metis mset_eq_imp_distinct_iff)
  from m(2) assms(2) have d2: "distinct (map f ?T)" by (metis mset_eq_imp_distinct_iff)
  from m have "set (map f ?S) = set (map f ?T)" by (metis mset_eq_setD)
  with d1 d2 have eq: "map f ?T = map f ?S"
    by (intro sorted_distinct_set_unique) simp_all
  from assms(1) have "set ys = set xs" by (metis mset_eq_setD)
  moreover from assms(2) have "inj_on f (set xs)" by (simp add: distinct_map)
  ultimately have "inj_on f (set ?T \<union> set ?S)" by simp
  from inj_on_map_eq_map [OF this] eq show ?thesis by simp
qed

section \<open>Rounding to a double\<close>

lemma pow2_powi: "pow2 e = 2 powi e"
  by (simp add: pow2_def power_int_def inverse_eq_divide power_one_over)

lemma pow2_pos [simp]: "0 < pow2 e"
  by (simp add: pow2_powi)

lemma pow2_add: "pow2 (a + b) = pow2 a * pow2 b"
  by (simp add: pow2_powi power_int_add)

lemma divide_pow2: "x / pow2 e = x * pow2 (- e)"
  by (simp add: pow2_powi power_int_minus field_simps)

lemma pow2_nat: "pow2 (int n) = 2 ^ n"
  by (simp add: pow2_def)

lemma pow2_mono: "a \<le> b \<Longrightarrow> pow2 a \<le> pow2 b"
  by (simp add: pow2_powi power_int_increasing)

lemma pow2_strict_mono: "a < b \<Longrightarrow> pow2 a < pow2 b"
  by (simp add: pow2_powi power_int_strict_increasing)

lemma pow2_le_cancel: "pow2 a \<le> pow2 b \<Longrightarrow> a \<le> b"
  using pow2_strict_mono [of b a] by (cases "a \<le> b") auto

lemma pow2_less_cancel: "pow2 a < pow2 b \<Longrightarrow> a < b"
  using pow2_mono [of b a] by (cases "a < b") auto

lemma ilog2_bounds:
  assumes "0 < a"
  shows "pow2 (ilog2 a) \<le> a \<and> a < pow2 (ilog2 a + 1)"
proof -
  obtain p q where pq: "quotient_of a = (p, q)" by (cases "quotient_of a")
  from quotient_of_denom_pos [OF pq] have q: "0 < q" .
  from quotient_of_div [OF pq] have a: "a = of_int p / of_int q" .
  with assms q have p: "0 < p" by (simp add: zero_less_divide_iff)
  let ?bp = "bitlen p" and ?bq = "bitlen q"
  from bitlen_bounds [OF p] have bp: "2 ^ nat (?bp - 1) \<le> p" "p < 2 ^ nat ?bp" by simp_all
  from bitlen_bounds [OF q] have bq: "2 ^ nat (?bq - 1) \<le> q" "q < 2 ^ nat ?bq" by simp_all
  from bp(2) p have posp: "0 < ?bp" by (cases "0 < ?bp") auto
  from bq(2) q have posq: "0 < ?bq" by (cases "0 < ?bq") auto
  note pos = posp posq
  have P1: "pow2 (?bp - 1) \<le> of_int p"
  proof -
    from bp(1) have "(of_int (2 ^ nat (?bp - 1)) :: rat) \<le> of_int p" by (simp only: of_int_le_iff)
    with pos show ?thesis by (simp add: pow2_def)
  qed
  have P2: "of_int p < pow2 ?bp"
  proof -
    from bp(2) have "(of_int p :: rat) < of_int (2 ^ nat ?bp)" by (simp only: of_int_less_iff)
    with pos show ?thesis by (simp add: pow2_def)
  qed
  have Q1: "pow2 (?bq - 1) \<le> of_int q"
  proof -
    from bq(1) have "(of_int (2 ^ nat (?bq - 1)) :: rat) \<le> of_int q" by (simp only: of_int_le_iff)
    with pos show ?thesis by (simp add: pow2_def)
  qed
  have Q2: "of_int q < pow2 ?bq"
  proof -
    from bq(2) have "(of_int q :: rat) < of_int (2 ^ nat ?bq)" by (simp only: of_int_less_iff)
    with pos show ?thesis by (simp add: pow2_def)
  qed
  let ?e0 = "?bp - ?bq"
  have qpos: "(0::rat) < of_int q" using q by simp
  have upper: "a < pow2 (?e0 + 1)"
  proof -
    have "pow2 (?e0 + 1) * pow2 (?bq - 1) = pow2 ?bp"
      by (simp add: pow2_add [symmetric])
    then have "of_int p < pow2 (?e0 + 1) * pow2 (?bq - 1)" using P2 by simp
    also have "\<dots> \<le> pow2 (?e0 + 1) * of_int q"
      using Q1 by (intro mult_left_mono) (simp_all add: less_imp_le)
    finally show ?thesis using qpos by (simp add: a pos_divide_less_eq)
  qed
  have lower: "pow2 (?e0 - 1) < a"
  proof -
    have "pow2 (?e0 - 1) * pow2 ?bq = pow2 (?bp - 1)"
      by (simp add: pow2_add [symmetric])
    moreover have "pow2 (?e0 - 1) * of_int q < pow2 (?e0 - 1) * pow2 ?bq"
      using Q2 by (intro mult_strict_left_mono) simp_all
    ultimately have "pow2 (?e0 - 1) * of_int q < of_int p" using P1 by simp
    then show ?thesis using qpos by (simp add: a pos_less_divide_eq)
  qed
  show ?thesis
  proof (cases "pow2 ?e0 \<le> a")
    case True
    with upper pq show ?thesis by (simp add: ilog2_def Let_def)
  next
    case False
    with lower pq show ?thesis by (simp add: ilog2_def Let_def less_imp_le)
  qed
qed

lemma roundHalfEven_of_int [simp]: "roundHalfEven (of_int k) = k"
  by (simp add: roundHalfEven_def Let_def)

lemma roundHalfEven_error: "\<bar>of_int (roundHalfEven q) - q\<bar> \<le> 1 / 2"
proof -
  have "of_int \<lfloor>q\<rfloor> \<le> q" "q < of_int \<lfloor>q\<rfloor> + 1" by linarith+
  then show ?thesis
    by (auto simp add: roundHalfEven_def Let_def abs_le_iff)
qed

lemma double_unfold:
  assumes "x \<noteq> 0" and "a = \<bar>x\<bar>" and "e = max (ilog2 a) (- 1022)" and "u = pow2 (e - 52)"
    and "n = roundHalfEven (a / u)"
  shows "double x =
     (if 1023 < e \<or> (e = 1023 \<and> 2 ^ 53 \<le> n)
      then (if 0 < x then PosInfinity else NegInfinity)
      else if n = 0 then (if 0 < x then Finite 0 else NegZero)
      else Finite (if 0 < x then of_int n * u else - (of_int n * u)))"
  unfolding assms(5) assms(4) assms(3) assms(2) double_def Let_def
  by (simp only: assms(1) if_False)

lemma double_of_int:
  assumes "\<bar>n\<bar> \<le> 2 ^ 53"
  shows "double (of_int n) = Finite (of_int n)"
proof (cases "n = 0")
  case True
  then show ?thesis by (simp add: double_def)
next
  case False
  define x :: rat where "x = of_int n"
  define a where "a = \<bar>x\<bar>"
  define e where "e = max (ilog2 a) (- 1022)"
  define u where "u = pow2 (e - 52)"
  define m where "m = roundHalfEven (a / u)"
  have nz: "x \<noteq> 0" using False by (simp add: x_def)
  have a_int: "a = of_int \<bar>n\<bar>" by (simp add: a_def x_def)
  from False have "1 \<le> \<bar>n\<bar>" by linarith
  then have "(of_int 1 :: rat) \<le> of_int \<bar>n\<bar>" by (simp only: of_int_le_iff)
  then have a1: "1 \<le> a" by (simp add: a_int)
  from assms have "(of_int \<bar>n\<bar> :: rat) \<le> of_int (2 ^ 53)" by (simp only: of_int_le_iff)
  then have a2: "a \<le> pow2 53" by (simp add: pow2_def a_int)
  from a1 have apos: "0 < a" by linarith
  from ilog2_bounds [OF apos] have b: "pow2 (ilog2 a) \<le> a" "a < pow2 (ilog2 a + 1)" by simp_all
  from b(1) a2 have "pow2 (ilog2 a) \<le> pow2 53" by linarith
  then have l53: "ilog2 a \<le> 53" by (rule pow2_le_cancel)
  from b(2) a1 have "pow2 0 < pow2 (ilog2 a + 1)" by (simp add: pow2_def)
  then have l0: "0 \<le> ilog2 a" using pow2_less_cancel [of 0 "ilog2 a + 1"] by simp
  have e: "e = ilog2 a" using l0 by (simp add: e_def)
  have upos: "0 < u" by (simp add: u_def)
  have ex: "\<exists>k. a / u = of_int k \<and> 0 < k"
  proof (cases "e \<le> 52")
    case True
    have "a / u = a * pow2 (52 - e)"
      by (simp add: u_def divide_pow2)
    also have "\<dots> = of_int (\<bar>n\<bar> * 2 ^ nat (52 - e))"
      using True by (simp add: pow2_def a_int)
    finally have eq: "a / u = of_int (\<bar>n\<bar> * 2 ^ nat (52 - e))" .
    have pos: "0 < \<bar>n\<bar> * 2 ^ nat (52 - e)" using False by simp
    from eq pos show ?thesis by blast
  next
    case False
    with l53 e have e53: "e = 53" by simp
    with b(1) a2 e have "a = pow2 53" by simp
    with e53 have "a / u = of_int (2 ^ 52)" by (simp add: pow2_def u_def)
    then show ?thesis by (intro exI [of _ "2 ^ 52"]) simp
  qed
  then obtain k where k: "a / u = of_int k" "0 < k" by blast
  have mk: "m = k" by (simp add: m_def k(1))
  from upos have "of_int k * u = a" unfolding k(1) [symmetric] by simp
  with mk have mu: "of_int m * u = a" by simp
  from double_unfold [OF nz a_def e_def u_def m_def]
  have "double x = Finite (if 0 < x then a else - a)"
    using l53 e k(2) mk mu by simp
  also have "(if 0 < x then a else - a) = x" by (simp add: a_def)
  finally show ?thesis by (simp add: x_def)
qed

section \<open>Exact and rounded operations\<close>

lemma plus_int:
  "\<bar>a + b\<bar> \<le> 2 ^ 53 \<Longrightarrow>
   plus_number (Finite (of_int a)) (Finite (of_int b)) = Finite (of_int (a + b))"
  using double_of_int [of "a + b"] by simp

lemma minus_int:
  assumes "\<bar>a - b\<bar> \<le> 2 ^ 53"
  shows "minus_number (Finite (of_int a)) (Finite (of_int b)) = Finite (of_int (a - b))"
proof (cases "b = 0")
  case True
  then show ?thesis by (simp add: minus_number_def)
next
  case False
  with double_of_int [OF assms] show ?thesis by (simp add: minus_number_def)
qed

lemma times_int_pos:
  assumes "0 < p" and "\<bar>a * p\<bar> \<le> 2 ^ 53"
  shows "times_number (Finite (of_int a)) (Finite (of_int p)) = Finite (of_int (a * p))"
proof (cases "a = 0")
  case True
  with assms(1) show ?thesis by (simp add: times_number_def signedZero_def)
next
  case False
  with assms(1) double_of_int [OF assms(2)] show ?thesis by (simp add: times_number_def)
qed

lemma divide_int_pos:
  assumes "0 < p" and "\<bar>a\<bar> \<le> 2 ^ 53"
  shows "divide_number (Finite (of_int (a * p))) (Finite (of_int p)) = Finite (of_int a)"
proof (cases "a = 0")
  case True
  with assms(1) show ?thesis by (simp add: divide_number_def signedZero_def)
next
  case False
  with assms(1) double_of_int [OF assms(2)] show ?thesis by (simp add: divide_number_def)
qed

lemma Math_round_int: "Math_round (Finite (of_int n)) = Finite (of_int n)"
proof -
  have "\<lfloor>(of_int n :: rat) + 1 / 2\<rfloor> = n" by linarith
  then show ?thesis by (simp add: Let_def)
qed

lemma abs_le_abs_mult:
  fixes d p :: int
  assumes "0 < p"
  shows "\<bar>d\<bar> \<le> \<bar>d * p\<bar>"
proof -
  from assms have "\<bar>d\<bar> * 1 \<le> \<bar>d\<bar> * p" by (intro mult_left_mono) simp_all
  with assms show ?thesis by (simp add: abs_mult)
qed




section \<open>Counting the overlapping entries\<close>

lemma overlapsIn_empty [simp]: "overlapsIn h m [] = 0"
  by (simp add: overlapsIn_def)

lemma overlapsIn_snoc:
  "overlapsIn h m (es @ [e]) = overlapsIn h m es + (if movementsOverlap (h m) (h (fst e)) then 1 else 0)"
  by (simp add: overlapsIn_def)

lemma someOverlap_overlapsIn: "someOverlap h m es \<Longrightarrow> 1 \<le> overlapsIn h m es"
proof -
  assume "someOverlap h m es"
  then have "filter (\<lambda>col. movementsOverlap (h m) (h (fst col))) es \<noteq> []"
    by (auto simp add: someOverlap_def list_ex_iff filter_empty_conv)
  then show ?thesis by (cases "filter (\<lambda>col. movementsOverlap (h m) (h (fst col))) es")
      (simp_all add: overlapsIn_def)
qed

lemma overlappingCount_snoc:
  "overlappingCount h m (placed @ [r]) =
     overlappingCount h m placed + (if movementsOverlap (h m) (h r) then 1 else 0)"
  by (simp add: overlappingCount_def)

lemma interval_Suc:
  "{- int (Suc n)..int (Suc n)} = insert (- int (Suc n)) (insert (int (Suc n)) {- int n..int n})"
  by auto

lemma columnsCount_Suc:
  assumes "columnEntries cols (int (Suc n)) = []" and "columnEntries cols (- int (Suc n)) = []"
  shows "columnsCount h m cols (Suc n) = columnsCount h m cols n"
proof -
  have "columnsCount h m cols (Suc n) =
      overlapsIn h m (columnEntries cols (- int (Suc n))) +
      (overlapsIn h m (columnEntries cols (int (Suc n))) + columnsCount h m cols n)"
    unfolding columnsCount_def interval_Suc by (subst sum.insert; simp)+
  with assms show ?thesis by simp
qed

lemma columnsCount_push:
  assumes "\<bar>c\<bar> \<le> int n"
  shows "columnsCount h m (push cols c e) n =
     columnsCount h m cols n + (if movementsOverlap (h m) (h (fst e)) then 1 else 0)"
proof -
  let ?x = "if movementsOverlap (h m) (h (fst e)) then 1 else 0 :: nat"
  have "columnsCount h m (push cols c e) n =
      (\<Sum>d \<in> {- int n..int n}. overlapsIn h m (columnEntries cols d) + (if d = c then ?x else 0))"
    unfolding columnsCount_def
    by (intro sum.cong refl) (simp add: columnEntries_push overlapsIn_snoc)
  also have "\<dots> = columnsCount h m cols n + (\<Sum>d \<in> {- int n..int n}. if d = c then ?x else 0)"
    by (simp add: sum.distrib columnsCount_def)
  also have "(\<Sum>d \<in> {- int n..int n}. if d = c then ?x else 0) = ?x"
    using assms by (subst sum.delta) auto
  finally show ?thesis .
qed

lemma chosenColumn_nearer:
  assumes ch: "chosenColumn h m cols c" and near: "\<bar>c'\<bar> < \<bar>c\<bar>"
  shows "someOverlap h m (columnEntries cols c')"
proof -
  from near have "c \<noteq> 0" by auto
  with ch obtain p where p: "someOverlap h m (columnEntries cols 0)" "c = probeColumn p"
    "\<forall>q<p. someOverlap h m (columnEntries cols (probeColumn q))"
    by (auto simp add: chosenColumn_def)
  show ?thesis
  proof (cases "c' = 0")
    case True
    with p(1) show ?thesis by simp
  next
    case False
    then obtain j where j: "\<bar>c'\<bar> = int (Suc j)" by (cases "nat \<bar>c'\<bar>") (auto simp add: nat_eq_iff)
    from near j p(2) have "Suc (2 * j) < p" by (simp add: abs_probeColumn)
    with p(3) have "someOverlap h m (columnEntries cols (probeColumn (2 * j)))"
      and "someOverlap h m (columnEntries cols (probeColumn (Suc (2 * j))))"
      by simp_all
    moreover from j have "c' = - int (Suc j) \<or> c' = int (Suc j)" by linarith
    ultimately show ?thesis unfolding probeColumn_left probeColumn_right by auto
  qed
qed

lemma chosenColumn_distance:
  assumes ch: "chosenColumn h m cols c" and bound: "\<bar>c\<bar> \<le> int n + 1"
  shows "\<bar>c\<bar> \<le> int (columnsCount h m cols n)"
proof (cases "c = 0")
  case True
  then show ?thesis by simp
next
  case False
  define d where "d = nat \<bar>c\<bar> - 1"
  from False have c: "\<bar>c\<bar> = int d + 1" by (simp add: d_def)
  let ?F = "{- int d..int d}"
  from bound c have sub: "?F \<subseteq> {- int n..int n}" by auto
  have near: "1 \<le> overlapsIn h m (columnEntries cols c')" if "c' \<in> ?F" for c'
  proof -
    from that have "\<bar>c'\<bar> < \<bar>c\<bar>" using c by auto
    from someOverlap_overlapsIn [OF chosenColumn_nearer [OF ch this]]
    show ?thesis .
  qed
  have "(\<Sum>c' \<in> ?F. 1) \<le> (\<Sum>c' \<in> ?F. overlapsIn h m (columnEntries cols c'))"
    by (rule sum_mono) (rule near)
  also have "\<dots> \<le> columnsCount h m cols n"
    unfolding columnsCount_def using sub by (intro sum_mono2) simp_all
  finally have "card ?F \<le> columnsCount h m cols n" by simp
  moreover have "card ?F = 2 * d + 1" by simp
  ultimately show ?thesis using c by simp
qed

lemma forEach_count:
  "columnsInv h ms placed st \<Longrightarrow> set placed \<subseteq> set ms \<Longrightarrow> set xs \<subseteq> set ms \<Longrightarrow>
   (\<forall>m. overlappingCount h m placed = columnsCount h m (fst st) (length placed)) \<Longrightarrow>
   \<exists>st'. forEach h ms xs st = Some st' \<and> columnsInv h ms (placed @ xs) st' \<and>
     (\<forall>m. overlappingCount h m (placed @ xs) = columnsCount h m (fst st') (length (placed @ xs)))"
proof (induction xs arbitrary: placed st)
  case Nil
  then show ?case by simp
next
  case (Cons r xs)
  obtain cols asg where st: "st = (cols, asg)" by (cases st)
  from Cons.prems have r: "r \<in> set ms" and xs: "set xs \<subseteq> set ms" by simp_all
  let ?n = "length placed"
  from place_columnsInv [OF Cons.prems(1) [unfolded st] r Cons.prems(2)]
  obtain c where c: "place h ms r (cols, asg)
               = Some (push cols c (r, indexOf ms r), setAssignment asg (indexOf ms r) c)"
    "columnsInv h ms (placed @ [r]) (push cols c (r, indexOf ms r), setAssignment asg (indexOf ms r) c)"
    by blast
  let ?st1 = "(push cols c (r, indexOf ms r), setAssignment asg (indexOf ms r) c)"
  have "columnEntries (push cols c (r, indexOf ms r)) c \<noteq> []" by (simp add: columnEntries_push)
  with columnsInv_bound [OF c(2), of c] have cb: "\<bar>c\<bar> \<le> int (Suc ?n)" by (cases "int (Suc ?n) < \<bar>c\<bar>") auto
  have empty: "columnEntries cols (int (Suc ?n)) = []" "columnEntries cols (- int (Suc ?n)) = []"
    using columnsInv_bound [OF Cons.prems(1) [unfolded st]] by simp_all
  have count: "overlappingCount h m (placed @ [r]) = columnsCount h m (fst ?st1) (length (placed @ [r]))"
    for m
  proof -
    have "columnsCount h m (push cols c (r, indexOf ms r)) (Suc ?n) =
        columnsCount h m cols (Suc ?n) + (if movementsOverlap (h m) (h r) then 1 else 0)"
      using columnsCount_push [OF cb, of h m cols "(r, indexOf ms r)"] by simp
    also have "columnsCount h m cols (Suc ?n) = columnsCount h m cols ?n"
      by (rule columnsCount_Suc [OF empty])
    finally show ?thesis using Cons.prems(4) by (simp add: overlappingCount_snoc st)
  qed
  from Cons.prems(2) r have "set (placed @ [r]) \<subseteq> set ms" by simp
  from Cons.IH [OF c(2) this xs] count c(1) st show ?case by simp
qed

lemma forEach_prefix_count:
  "\<exists>cols asg. forEach h ms (take k (sortedMovements h ms)) (initialState ms) = Some (cols, asg) \<and>
        columnsInv h ms (take k (sortedMovements h ms)) (cols, asg) \<and>
        (\<forall>m. overlappingCount h m (take k (sortedMovements h ms))
              = columnsCount h m cols (length (take k (sortedMovements h ms))))"
proof -
  have sub: "set (take k (sortedMovements h ms)) \<subseteq> set ms"
    using set_take_subset [of k "sortedMovements h ms"] by simp
  have init: "\<forall>m. overlappingCount h m [] = columnsCount h m (fst (initialState ms)) (length ([] :: mref list))"
    by (simp add: overlappingCount_def columnsCount_def initialState_def columnEntries_def)
  from forEach_count [OF columnsInv_initial _ sub init] show ?thesis by auto
qed

section \<open>The claims\<close>

text \<open>
  C1. When the movements of the input are pairwise distinct values, the arrangement
  returns one column per movement, and two movements at different positions that receive
  the same column do not overlap in time.
\<close>

theorem same_column_no_overlap:
  assumes "distinct (map h ms)"
  shows "\<exists>asg. arrangeMovementsInColumns h ms = Some asg \<and> length asg = length ms \<and>
     (\<forall>i j. i < length ms \<and> j < length ms \<and> i \<noteq> j \<and> asg ! i = asg ! j
         \<longrightarrow> \<not> movementsOverlap (h (ms ! i)) (h (ms ! j)))"
  using assms by (intro arrange_distinct) (simp add: distinct_map)

theorem same_column_no_overlap_witness:
  "distinct (map testHeap [0, 1, 2]) \<and>
   arrangeMovementsInColumns testHeap [0, 1, 2] = Some [0, - 1, 0] \<and>
   \<not> movementsOverlap (testHeap ([0, 1, 2] ! 0)) (testHeap ([0, 1, 2] ! 2))"
proof -
  have d: "distinct (map testHeap [0, 1, 2])"
    by (simp add: testHeap_def mkMovement_def)
  have e: "arrangeMovementsInColumns testHeap [0, 1, 2] = Some [0, - 1, 0]" by code_simp
  from same_column_no_overlap [OF d] e
  have "\<forall>i j. i < length [0, 1, 2 :: nat] \<and> j < length [0, 1, 2 :: nat] \<and> i \<noteq> j \<and>
            [0, - 1, 0 :: int] ! i = [0, - 1, 0] ! j
          \<longrightarrow> \<not> movementsOverlap (testHeap ([0, 1, 2] ! i)) (testHeap ([0, 1, 2] ! j))"
    by simp
  then have "\<not> movementsOverlap (testHeap ([0, 1, 2] ! 0)) (testHeap ([0, 1, 2] ! 2))"
    by (elim allE [of _ 0] allE [of _ 2]) simp
  with d e show ?thesis by blast
qed

text \<open>
  C2. For the movements 1400-1600 and 1500-1700, in this order, the claim and the unit
  test expect the columns [0, 1]. The second movement conflicts in column 0 and the probe
  loop tries the left side first, so the code answers [0, -1].
\<close>

theorem arrange_overlapping_pair:
  "arrangeMovementsInColumns testHeap [0, 1] = Some [0, - 1]"
  by code_simp

text \<open>
  C3. The probe sequence is -1, +1, -2, +2, -3, +3, and so on: the left column of a
  distance comes before the right one. When only finitely many columns
  are occupied and the movement conflicts with an entry of column 0, the callback places
  it in the first column of the probe sequence that holds no overlapping entry: every
  earlier column of the sequence holds one, and so do both columns \<open>-k\<close> and \<open>+k\<close> at
  every distance \<open>k\<close> smaller than that of the chosen column.
\<close>

theorem probe_order:
  assumes finite_columns: "\<forall>c. int N < \<bar>c\<bar> \<longrightarrow> columnEntries cols c = []"
    and center: "someOverlap h m (columnEntries cols 0)"
  shows "map probeColumn [0..<6] = [- 1, 1, - 2, 2, - 3, 3] \<and>
    (\<forall>k. probeColumn (2 * k) = - int (k + 1) \<and> probeColumn (2 * k + 1) = int (k + 1)) \<and>
    (\<exists>p. place h ms m (cols, asg)
            = Some (push cols (probeColumn p) (m, indexOf ms m),
                    setAssignment asg (indexOf ms m) (probeColumn p)) \<and>
         \<not> someOverlap h m (columnEntries cols (probeColumn p)) \<and>
         (\<forall>q<p. someOverlap h m (columnEntries cols (probeColumn q))) \<and>
         (\<forall>k. 1 \<le> k \<and> int k < \<bar>probeColumn p\<bar> \<longrightarrow>
              someOverlap h m (columnEntries cols (- int k)) \<and>
              someOverlap h m (columnEntries cols (int k))))"
proof (intro conjI)
  show "map probeColumn [0..<6] = [- 1, 1, - 2, 2, - 3, 3]"
    by (simp add: probeColumn_def upt_rec)
next
  show "\<forall>k. probeColumn (2 * k) = - int (k + 1) \<and> probeColumn (2 * k + 1) = int (k + 1)"
    by (simp add: probeColumn_def)
next
  from finite_columns have "\<And>c. int N < \<bar>c\<bar> \<Longrightarrow> columnEntries cols c = []" by blast
  from place_result [of N cols h ms m asg, OF this] obtain c where
    c: "place h ms m (cols, asg)
          = Some (push cols c (m, indexOf ms m), setAssignment asg (indexOf ms m) c)"
       "chosenColumn h m cols c"
    by blast
  from c(2) center obtain p where p: "c = probeColumn p"
      "\<not> someOverlap h m (columnEntries cols (probeColumn p))"
      "\<forall>q<p. someOverlap h m (columnEntries cols (probeColumn q))"
    by (auto simp add: chosenColumn_def)
  have "someOverlap h m (columnEntries cols (- int k)) \<and> someOverlap h m (columnEntries cols (int k))"
    if k: "1 \<le> k" "int k < \<bar>probeColumn p\<bar>" for k
  proof -
    from k obtain j where j: "k = Suc j" by (cases k) auto
    from k(2) j have "Suc (2 * j) < p" by (simp add: abs_probeColumn)
    with p(3) have "someOverlap h m (columnEntries cols (probeColumn (2 * j)))"
      and "someOverlap h m (columnEntries cols (probeColumn (Suc (2 * j))))"
      by simp_all
    then show ?thesis unfolding probeColumn_left probeColumn_right j by simp
  qed
  with c(1) p show "\<exists>p. place h ms m (cols, asg)
            = Some (push cols (probeColumn p) (m, indexOf ms m),
                    setAssignment asg (indexOf ms m) (probeColumn p)) \<and>
         \<not> someOverlap h m (columnEntries cols (probeColumn p)) \<and>
         (\<forall>q<p. someOverlap h m (columnEntries cols (probeColumn q))) \<and>
         (\<forall>k. 1 \<le> k \<and> int k < \<bar>probeColumn p\<bar> \<longrightarrow>
              someOverlap h m (columnEntries cols (- int k)) \<and>
              someOverlap h m (columnEntries cols (int k)))"
    by blast
qed

theorem probe_order_witness:
  "someOverlap testHeap 1 (columnEntries [0 \<mapsto> [(0, 0)]] 0) \<and>
   place testHeap [0, 1] 1 ([0 \<mapsto> [(0, 0)]], [0, 0])
     = Some (push [0 \<mapsto> [(0, 0)]] (- 1) (1, 1), [0, - 1])"
proof -
  let ?cols = "[0 \<mapsto> [(0, 0)]] :: columns"
  have fin: "\<forall>c. int 0 < \<bar>c\<bar> \<longrightarrow> columnEntries ?cols c = []"
    by (simp add: columnEntries_def)
  have center: "someOverlap testHeap 1 (columnEntries ?cols 0)" by code_simp
  from probe_order [OF fin center, of "[0, 1]" "[0, 0]"]
  have "\<exists>p. place testHeap [0, 1] 1 (?cols, [0, 0])
          = Some (push ?cols (probeColumn p) (1, indexOf [0, 1 :: nat] 1),
                  setAssignment [0, 0] (indexOf [0, 1 :: nat] 1) (probeColumn p)) \<and>
       \<not> someOverlap testHeap 1 (columnEntries ?cols (probeColumn p)) \<and>
       (\<forall>q<p. someOverlap testHeap 1 (columnEntries ?cols (probeColumn q))) \<and>
       (\<forall>k. 1 \<le> k \<and> int k < \<bar>probeColumn p\<bar> \<longrightarrow>
            someOverlap testHeap 1 (columnEntries ?cols (- int k)) \<and>
            someOverlap testHeap 1 (columnEntries ?cols (int k)))"
    by (elim conjE)
  then obtain p where
    p: "place testHeap [0, 1] 1 (?cols, [0, 0])
          = Some (push ?cols (probeColumn p) (1, indexOf [0, 1 :: nat] 1),
                  setAssignment [0, 0] (indexOf [0, 1 :: nat] 1) (probeColumn p))"
       "\<forall>q<p. someOverlap testHeap 1 (columnEntries ?cols (probeColumn q))"
    by (elim exE conjE)
  have "\<not> someOverlap testHeap 1 (columnEntries ?cols (probeColumn 0))"
    by (simp add: probeColumn_def columnEntries_def)
  with p(2) have "p = 0" by (cases p) auto
  with p(1) have "place testHeap [0, 1] 1 (?cols, [0, 0])
     = Some (push ?cols (- 1) (1, 1), [0, - 1])"
    by (simp add: probeColumn_def setAssignment_def)
  with center show ?thesis by blast
qed

text \<open>
  C4. The claim puts the visible range within the time range for every scroll offset,
  and the code clamps the start from below and the end from above to that end. With the
  screen height 667 and the time range 1400-1920, the scroll event at the offset 2753 at
  the zoom level 3 gives the range 1842-1920. When the zoom level then becomes 0.5, the
  effect computes the range from the stored offset 2753, which lies beyond the content
  at that zoom level: the range is 4053-1920, its start after its end and after the end
  of the time range.
\<close>

theorem visible_range_stale_offset:
  "updateVisibleRange (Finite 2753) (Finite 667) \<lparr>start = 1400, end' = Some 1920\<rparr>
      (zoomedConfig (Finite 3))
     = \<lparr>rangeStart = Finite 1842, rangeEnd = Finite 1920\<rparr> \<and>
   updateVisibleRange (Finite 2753) (Finite 667) \<lparr>start = 1400, end' = Some 1920\<rparr>
      (zoomedConfig (Finite (1 / 2)))
     = \<lparr>rangeStart = Finite 4053, rangeEnd = Finite 1920\<rparr> \<and>
   less_number (Finite 1920) (Finite 4053) \<and>
   less_number (toNumber (endOrStart \<lparr>start = 1400, end' = Some 1920\<rparr>)) (Finite 4053) \<and>
   visibleRange
     (zoomEffect (Finite 667) \<lparr>start = 1400, end' = Some 1920\<rparr> (Finite (1 / 2))
        (handleScroll (Finite 2753) (Finite 667) \<lparr>start = 1400, end' = Some 1920\<rparr> (Finite 3)))
     = \<lparr>rangeStart = Finite 4053, rangeEnd = Finite 1920\<rparr>"
  by code_simp




text \<open>
  C6, as claimed, fails: the year \<open>2^52 + 1\<close> is an integer and a double, and 3 is a
  strictly positive integer, but with the time range 1400-1920 and the padding 100 the
  offset is rounded to 13510798882107392 and the way back gives the year \<open>2^52 + 2\<close>.
\<close>

theorem round_trip_counterexample:
  "toNumber 4503599627370497 = Finite 4503599627370497 \<and>
   yearToScrollOffset (toNumber 4503599627370497) \<lparr>start = 1400, end' = Some 1920\<rparr>
       (TIMELINE_CONFIG\<lparr>PIXELS_PER_YEAR := Finite 3\<rparr>) = Finite 13510798882107392 \<and>
   scrollOffsetToYear
     (yearToScrollOffset (toNumber 4503599627370497) \<lparr>start = 1400, end' = Some 1920\<rparr>
        (TIMELINE_CONFIG\<lparr>PIXELS_PER_YEAR := Finite 3\<rparr>))
     \<lparr>start = 1400, end' = Some 1920\<rparr> (TIMELINE_CONFIG\<lparr>PIXELS_PER_YEAR := Finite 3\<rparr>)
     = Finite 4503599627370498"
  by code_simp

text \<open>
  C6, amended. Let \<open>PIXELS_PER_YEAR\<close> be a strictly positive integer and the padding an
  integer, and let the year, the start of the time range, the product
  \<open>(year - start) * PIXELS_PER_YEAR\<close> and the offset
  \<open>padding + (year - start) * PIXELS_PER_YEAR\<close> be at most \<open>2^53\<close> in magnitude. Then
  \<open>yearToScrollOffset\<close> returns that offset exactly, and \<open>scrollOffsetToYear\<close> of it is
  the year.
\<close>

theorem round_trip:
  assumes ppy: "PIXELS_PER_YEAR config = Finite (of_int p)" and p: "0 < p"
    and pad: "TIMELINE_PADDING config = Finite (of_int padding)"
    and year: "\<bar>year\<bar> \<le> 2 ^ 53" and start: "\<bar>start timeRange\<bar> \<le> 2 ^ 53"
    and product: "\<bar>(year - start timeRange) * p\<bar> \<le> 2 ^ 53"
    and offset: "\<bar>padding + (year - start timeRange) * p\<bar> \<le> 2 ^ 53"
  shows "yearToScrollOffset (toNumber year) timeRange config
           = Finite (of_int (padding + (year - start timeRange) * p)) \<and>
         scrollOffsetToYear (yearToScrollOffset (toNumber year) timeRange config) timeRange config
           = toNumber year"
proof -
  let ?s = "start timeRange"
  let ?d = "year - ?s"
  let ?m = "?d * p"
  from abs_le_abs_mult [OF p, of ?d] product have d: "\<bar>?d\<bar> \<le> 2 ^ 53" by linarith
  have Y: "toNumber year = Finite (of_int year)"
    using double_of_int [OF year] by (simp add: toNumber_def)
  have S: "toNumber ?s = Finite (of_int ?s)"
    using double_of_int [OF start] by (simp add: toNumber_def)
  have D: "minus_number (toNumber year) (toNumber ?s) = Finite (of_int ?d)"
    unfolding Y S by (rule minus_int [OF d])
  have M: "times_number (Finite (of_int ?d)) (Finite (of_int p)) = Finite (of_int ?m)"
    by (rule times_int_pos [OF p product])
  have O: "plus_number (Finite (of_int padding)) (Finite (of_int ?m)) = Finite (of_int (padding + ?m))"
    by (rule plus_int [OF offset])
  have forward: "yearToScrollOffset (toNumber year) timeRange config = Finite (of_int (padding + ?m))"
    by (simp only: yearToScrollOffset_def Let_def ppy pad D M O)
  have "\<bar>padding + ?m - padding\<bar> \<le> 2 ^ 53" using product by simp
  from minus_int [OF this]
  have A: "minus_number (Finite (of_int (padding + ?m))) (Finite (of_int padding)) = Finite (of_int ?m)"
    by simp
  have Q: "divide_number (Finite (of_int ?m)) (Finite (of_int p)) = Finite (of_int ?d)"
    by (rule divide_int_pos [OF p d])
  have "\<bar>?s + ?d\<bar> \<le> 2 ^ 53" using year by simp
  from plus_int [OF this]
  have R: "plus_number (Finite (of_int ?s)) (Finite (of_int ?d)) = Finite (of_int year)" by simp
  have backward: "scrollOffsetToYear (Finite (of_int (padding + ?m))) timeRange config = Finite (of_int year)"
    by (simp only: scrollOffsetToYear_def Let_def ppy pad S A Q R Math_round_int)
  from forward backward Y show ?thesis by simp
qed

theorem round_trip_witness:
  "PIXELS_PER_YEAR TIMELINE_CONFIG = Finite (of_int 2) \<and> (0 :: int) < 2 \<and>
   TIMELINE_PADDING TIMELINE_CONFIG = Finite (of_int 100) \<and>
   yearToScrollOffset (toNumber 1450) \<lparr>start = 1400, end' = Some 1920\<rparr> TIMELINE_CONFIG
     = Finite 200 \<and>
   scrollOffsetToYear
     (yearToScrollOffset (toNumber 1450) \<lparr>start = 1400, end' = Some 1920\<rparr> TIMELINE_CONFIG)
     \<lparr>start = 1400, end' = Some 1920\<rparr> TIMELINE_CONFIG = toNumber 1450"
proof -
  let ?tr = "\<lparr>start = 1400, end' = Some 1920\<rparr>"
  have h1: "PIXELS_PER_YEAR TIMELINE_CONFIG = Finite (of_int 2)"
    by (simp add: TIMELINE_CONFIG_def)
  have h2: "(0 :: int) < 2" by simp
  have h3: "TIMELINE_PADDING TIMELINE_CONFIG = Finite (of_int 100)"
    by (simp add: TIMELINE_CONFIG_def)
  have h4: "\<bar>1450 :: int\<bar> \<le> 2 ^ 53" by simp
  have h5: "\<bar>start ?tr\<bar> \<le> 2 ^ 53" by simp
  have h6: "\<bar>(1450 - start ?tr) * 2\<bar> \<le> 2 ^ 53" by simp
  have h7: "\<bar>100 + (1450 - start ?tr) * 2\<bar> \<le> 2 ^ 53" by simp
  note c = round_trip [OF h1 h2 h3 h4 h5 h6 h7]
  from c have f: "yearToScrollOffset (toNumber 1450) ?tr TIMELINE_CONFIG = Finite 200"
    by simp
  from c have b: "scrollOffsetToYear (yearToScrollOffset (toNumber 1450) ?tr TIMELINE_CONFIG) ?tr
           TIMELINE_CONFIG = toNumber 1450"
    by (rule conjunct2)
  from h1 h2 h3 f b show ?thesis by blast
qed

text \<open>
  C7. When the start years of the input are pairwise distinct, the column of a movement
  does not depend on the order of the input: for every permutation of the input both
  runs return, and a movement at position \<open>i\<close> of the one and \<open>j\<close> of the other list has
  the same column in both results.
\<close>

theorem order_independent:
  assumes "distinct (map (\<lambda>r. start (period (h r))) ms)" and "mset ms' = mset ms"
  shows "\<exists>asg asg'. arrangeMovementsInColumns h ms = Some asg \<and>
           arrangeMovementsInColumns h ms' = Some asg' \<and>
           length asg = length ms \<and> length asg' = length ms' \<and>
           (\<forall>i j. i < length ms \<and> j < length ms' \<and> ms ! i = ms' ! j \<longrightarrow> asg ! i = asg' ! j)"
proof -
  from assms(1) have d: "distinct ms" by (simp add: distinct_map)
  with assms(2) have d': "distinct ms'" by (metis mset_eq_imp_distinct_iff)
  from assms(2) have sets: "set ms' = set ms" by (metis mset_eq_setD)
  from sort_key_perm_distinct [OF assms(2,1)]
  have sorted: "sortedMovements h ms' = sortedMovements h ms" by (simp add: sortedMovements_def)
  let ?S = "sortedMovements h ms"
  have "\<exists>t t'. forEach h ms ?S (initialState ms) = Some t \<and>
           forEach h ms' ?S (initialState ms') = Some t' \<and>
           length (snd t) = length ms \<and> length (snd t') = length ms' \<and>
           (\<forall>r \<in> set ([] @ ?S). snd t ! nat (indexOf ms r) = snd t' ! nat (indexOf ms' r))"
    by (rule forEach_sim [OF columnsInv_initial columnsInv_initial])
      (simp_all add: sets initialState_def)
  then obtain t t' where t: "forEach h ms ?S (initialState ms) = Some t"
    "forEach h ms' ?S (initialState ms') = Some t'"
    "length (snd t) = length ms" "length (snd t') = length ms'"
    "\<forall>r \<in> set ms. snd t ! nat (indexOf ms r) = snd t' ! nat (indexOf ms' r)"
    by auto
  have "snd t ! i = snd t' ! j" if ij: "i < length ms" "j < length ms'" "ms ! i = ms' ! j" for i j
  proof -
    from ij(1) have "ms ! i \<in> set ms" by simp
    with t(5) have "snd t ! nat (indexOf ms (ms ! i)) = snd t' ! nat (indexOf ms' (ms ! i))" by blast
    moreover from d ij(1) have "indexOf ms (ms ! i) = int i" by (rule indexOf_distinct)
    moreover from d' ij(2) have "indexOf ms' (ms' ! j) = int j" by (rule indexOf_distinct)
    ultimately show ?thesis using ij(3) by simp
  qed
  with t sorted show ?thesis
    by (simp add: arrangeMovementsInColumns_def)
qed

theorem order_independent_witness:
  "distinct (map (\<lambda>r. start (period (testHeap r))) [0, 1, 2]) \<and> mset [2, 0, 1] = mset [0, 1, 2 :: nat] \<and>
   arrangeMovementsInColumns testHeap [0, 1, 2] = Some [0, - 1, 0] \<and>
   arrangeMovementsInColumns testHeap [2, 0, 1] = Some [0, 0, - 1] \<and>
   the (arrangeMovementsInColumns testHeap [0, 1, 2]) ! 1
     = the (arrangeMovementsInColumns testHeap [2, 0, 1]) ! 2"
proof -
  have h1: "distinct (map (\<lambda>r. start (period (testHeap r))) [0, 1, 2])" by code_simp
  have h2: "mset [2, 0, 1] = mset [0, 1, 2 :: nat]" by simp
  have e1: "arrangeMovementsInColumns testHeap [0, 1, 2] = Some [0, - 1, 0]" by code_simp
  have e2: "arrangeMovementsInColumns testHeap [2, 0, 1] = Some [0, 0, - 1]" by code_simp
  from order_independent [OF h1 h2] obtain asg asg' where
    a: "arrangeMovementsInColumns testHeap [0, 1, 2] = Some asg"
       "arrangeMovementsInColumns testHeap [2, 0, 1] = Some asg'"
       "\<forall>i j. i < length [0, 1, 2 :: nat] \<and> j < length [2, 0, 1 :: nat] \<and> [0, 1, 2 :: nat] ! i = [2, 0, 1] ! j \<longrightarrow> asg ! i = asg' ! j"
    by blast
  from a(3) have "asg ! 1 = asg' ! 2" by simp
  with a(1,2) h1 h2 e1 e2 show ?thesis by simp
qed

text \<open>
  C8, as claimed, fails in its reason: with six movements 0-10, one movement 5-100 and
  the candidate 50-60, exactly one placed movement overlaps the candidate, yet column 3,
  at a distance larger than 1, is not empty: it holds the movement 5-100, which overlaps
  the candidate.
\<close>

theorem probe_reason_counterexample:
  "sortedMovements crowdedHeap [0, 1, 2, 3, 4, 5, 6, 7] = [0, 1, 2, 3, 4, 5, 6, 7] \<and>
   overlappingCount crowdedHeap 7 [0, 1, 2, 3, 4, 5, 6] = 1 \<and>
   (1 :: int) < \<bar>3\<bar> \<and>
   columnAfter crowdedHeap [0, 1, 2, 3, 4, 5, 6, 7] [0, 1, 2, 3, 4, 5, 6] 3 = Some [(6, 6)] \<and>
   someOverlap crowdedHeap 7 [(6, 6)] \<and>
   arrangeMovementsInColumns crowdedHeap [0, 1, 2, 3, 4, 5, 6, 7]
     = Some [0, - 1, 1, - 2, 2, - 3, 3, 0]"
  by code_simp

text \<open>
  C8, amended. The arrangement returns on every input list, with one column per
  movement. For every movement of the sorted list the callback returns: the probe loop
  places the movement in a column without an overlapping entry, and the distance of that
  column from the centre is at most the number of movements placed before that overlap
  it.
\<close>

theorem arrange_terminates:
  "\<exists>asg. arrangeMovementsInColumns h ms = Some asg \<and> length asg = length ms \<and>
     (\<forall>k < length ms. \<exists>cols asg' c.
        forEach h ms (take k (sortedMovements h ms)) (initialState ms) = Some (cols, asg') \<and>
        place h ms (sortedMovements h ms ! k) (cols, asg')
          = Some (push cols c (sortedMovements h ms ! k, indexOf ms (sortedMovements h ms ! k)),
                  setAssignment asg' (indexOf ms (sortedMovements h ms ! k)) c) \<and>
        \<not> someOverlap h (sortedMovements h ms ! k) (columnEntries cols c) \<and>
        \<bar>c\<bar> \<le> int (overlappingCount h (sortedMovements h ms ! k) (take k (sortedMovements h ms))))"
proof -
  let ?S = "sortedMovements h ms"
  from arrange_columnsInv [of h ms] obtain cols asg where
    a: "arrangeMovementsInColumns h ms = Some asg"
    and inv: "columnsInv h ms ?S (cols, asg)"
    by blast
  have "\<exists>cols asg' c.
        forEach h ms (take k ?S) (initialState ms) = Some (cols, asg') \<and>
        place h ms (?S ! k) (cols, asg')
          = Some (push cols c (?S ! k, indexOf ms (?S ! k)),
                  setAssignment asg' (indexOf ms (?S ! k)) c) \<and>
        \<not> someOverlap h (?S ! k) (columnEntries cols c) \<and>
        \<bar>c\<bar> \<le> int (overlappingCount h (?S ! k) (take k ?S))" if k: "k < length ms" for k
  proof -
    from forEach_prefix_count [of h ms k] obtain cols' asg' where
      st: "forEach h ms (take k ?S) (initialState ms) = Some (cols', asg')"
      "columnsInv h ms (take k ?S) (cols', asg')"
      "\<forall>m. overlappingCount h m (take k ?S) = columnsCount h m cols' (length (take k ?S))"
      by blast
    from k have len: "length (take k ?S) = k" by simp
    from columnsInv_bound [OF st(2)] len
    have bound: "\<And>d. int k < \<bar>d\<bar> \<Longrightarrow> columnEntries cols' d = []" by simp
    from place_result [where N = k and cols = cols' and h = h and ms = ms and m = "?S ! k"
        and asg = asg', OF bound] obtain c where
      c: "place h ms (?S ! k) (cols', asg')
          = Some (push cols' c (?S ! k, indexOf ms (?S ! k)),
                  setAssignment asg' (indexOf ms (?S ! k)) c)"
         "chosenColumn h (?S ! k) cols' c" "\<bar>c\<bar> \<le> int k + 1"
      by blast
    from c(2) have free: "\<not> someOverlap h (?S ! k) (columnEntries cols' c)"
      by (simp add: chosenColumn_def)
    from chosenColumn_distance [OF c(2,3)] st(3) len
    have "\<bar>c\<bar> \<le> int (overlappingCount h (?S ! k) (take k ?S))" by simp
    with st(1) c(1) free show ?thesis by blast
  qed
  with a columnsInv_length [OF inv] show ?thesis by blast
qed

theorem arrange_terminates_witness:
  "(1::nat) < length [0, 1 :: nat] \<and>
   arrangeMovementsInColumns testHeap [0, 1] = Some [0, - 1] \<and>
   overlappingCount testHeap (sortedMovements testHeap [0, 1] ! 1)
     (take 1 (sortedMovements testHeap [0, 1])) = 1 \<and>
   (\<exists>cols asg' c. forEach testHeap [0, 1] (take 1 (sortedMovements testHeap [0, 1]))
        (initialState [0, 1]) = Some (cols, asg') \<and>
      place testHeap [0, 1] (sortedMovements testHeap [0, 1] ! 1) (cols, asg')
        = Some (push cols c (sortedMovements testHeap [0, 1] ! 1,
                             indexOf [0, 1] (sortedMovements testHeap [0, 1] ! 1)),
                setAssignment asg' (indexOf [0, 1] (sortedMovements testHeap [0, 1] ! 1)) c) \<and>
      \<bar>c\<bar> \<le> 1)"
proof -
  have e: "arrangeMovementsInColumns testHeap [0, 1] = Some [0, - 1]" by code_simp
  let ?S = "sortedMovements testHeap [0, 1]"
  have n: "overlappingCount testHeap (?S ! 1) (take 1 ?S) = 1" by code_simp
  from arrange_terminates [of testHeap "[0, 1]"]
  have "\<forall>k < length [0, 1 :: nat]. \<exists>cols asg' c.
        forEach testHeap [0, 1] (take k ?S) (initialState [0, 1]) = Some (cols, asg') \<and>
        place testHeap [0, 1] (?S ! k) (cols, asg')
          = Some (push cols c (?S ! k, indexOf [0, 1] (?S ! k)),
                  setAssignment asg' (indexOf [0, 1] (?S ! k)) c) \<and>
        \<not> someOverlap testHeap (?S ! k) (columnEntries cols c) \<and>
        \<bar>c\<bar> \<le> int (overlappingCount testHeap (?S ! k) (take k ?S))"
    by blast
  then have "\<exists>cols asg' c.
        forEach testHeap [0, 1] (take 1 ?S) (initialState [0, 1]) = Some (cols, asg') \<and>
        place testHeap [0, 1] (?S ! 1) (cols, asg')
          = Some (push cols c (?S ! 1, indexOf [0, 1] (?S ! 1)),
                  setAssignment asg' (indexOf [0, 1] (?S ! 1)) c) \<and>
        \<not> someOverlap testHeap (?S ! 1) (columnEntries cols c) \<and>
        \<bar>c\<bar> \<le> int (overlappingCount testHeap (?S ! 1) (take 1 ?S))"
    by (elim allE [of _ 1]) simp
  then obtain cols asg' c where
    r: "forEach testHeap [0, 1] (take 1 ?S) (initialState [0, 1]) = Some (cols, asg')"
    "place testHeap [0, 1] (?S ! 1) (cols, asg')
          = Some (push cols c (?S ! 1, indexOf [0, 1] (?S ! 1)),
                  setAssignment asg' (indexOf [0, 1] (?S ! 1)) c)"
    "\<bar>c\<bar> \<le> int (overlappingCount testHeap (?S ! 1) (take 1 ?S))"
    by blast
  from r(3) n have "\<bar>c\<bar> \<le> 1" by simp
  with e n r(1,2) show ?thesis by auto
qed

text \<open>
  C9, as claimed, fails for movements that are equal as values but different objects:
  \<open>indexOf\<close> compares objects, so each of three such movements 1400-1600 is recorded at
  its own index, and the result is [0, -1, 1].
\<close>

theorem value_equal_counterexample:
  "sameValueHeap 0 = sameValueHeap 1 \<and> sameValueHeap 1 = sameValueHeap 2 \<and>
   arrangeMovementsInColumns sameValueHeap [0, 1, 2] = Some [0, - 1, 1]"
  by (simp add: sameValueHeap_def) code_simp

text \<open>
  C9, amended. The callback writes the column of a movement at the index that \<open>indexOf\<close>
  finds, which is the first position of the input that holds this object. When the
  object at position \<open>j\<close> of the input occurs at an earlier position too, \<open>indexOf\<close> finds
  an index before \<open>j\<close>, and position \<open>j\<close> of the result keeps the initial 0; when all
  objects of the input are different, every movement is recorded at its own index. For
  the input that holds the same movement 1400-1600 three times the result is [1, 0, 0]:
  the positions 1 and 2 share column 0, and the movement overlaps itself.
\<close>

theorem duplicate_assignments:
  "(\<forall>m cols asg st'. place h ms m (cols, asg) = Some st' \<longrightarrow>
        (\<exists>c. snd st' = setAssignment asg (indexOf ms m) c)) \<and>
   (\<forall>m. m \<in> set ms \<longrightarrow>
        0 \<le> indexOf ms m \<and> ms ! nat (indexOf ms m) = m \<and>
        (\<forall>k < nat (indexOf ms m). ms ! k \<noteq> m)) \<and>
   (\<forall>i j. i < j \<and> j < length ms \<and> ms ! i = ms ! j \<longrightarrow>
        indexOf ms (ms ! j) < int j \<and>
        (\<exists>asg. arrangeMovementsInColumns h ms = Some asg \<and> length asg = length ms \<and> asg ! j = 0)) \<and>
   (distinct ms \<longrightarrow> (\<forall>i < length ms. indexOf ms (ms ! i) = int i)) \<and>
   arrangeMovementsInColumns testHeap [0, 0, 0] = Some [1, 0, 0] \<and>
   movementsOverlap (testHeap 0) (testHeap 0)"
proof (intro conjI allI impI)
  fix m cols asg st'
  assume "place h ms m (cols, asg) = Some st'"
  then show "\<exists>c. snd st' = setAssignment asg (indexOf ms m) c" by (rule place_assignment)
next
  fix m assume "m \<in> set ms"
  then show "0 \<le> indexOf ms m" using indexOf_range [of m ms] by simp
next
  fix m assume "m \<in> set ms"
  then show "ms ! nat (indexOf ms m) = m" by (rule indexOf_nth)
next
  fix m k assume "k < nat (indexOf ms m)"
  then show "ms ! k \<noteq> m" by (rule indexOf_first)
next
  fix i j
  assume ij: "i < j \<and> j < length ms \<and> ms ! i = ms ! j"
  then have jin: "ms ! j \<in> set ms" by simp
  from ij indexOf_first [of i ms "ms ! j"] have "\<not> i < nat (indexOf ms (ms ! j))" by auto
  with ij indexOf_range [OF jin] show "indexOf ms (ms ! j) < int j" by linarith
next
  fix i j
  assume ij: "i < j \<and> j < length ms \<and> ms ! i = ms ! j"
  from arrange_columnsInv [of h ms] obtain cols asg where
    a: "arrangeMovementsInColumns h ms = Some asg"
    and inv: "columnsInv h ms (sortedMovements h ms) (cols, asg)"
    by blast
  from ij have "\<And>m. indexOf ms m \<noteq> int j" by (intro indexOf_later [of i j]) simp_all
  with columnsInv_zero [OF inv, of j] ij have "asg ! j = 0" by simp
  with a columnsInv_length [OF inv]
  show "\<exists>asg. arrangeMovementsInColumns h ms = Some asg \<and> length asg = length ms \<and> asg ! j = 0"
    by blast
next
  fix i assume "distinct ms" "i < length ms"
  then show "indexOf ms (ms ! i) = int i" by (rule indexOf_distinct)
next
  show "arrangeMovementsInColumns testHeap [0, 0, 0] = Some [1, 0, 0]" by code_simp
next
  show "movementsOverlap (testHeap 0) (testHeap 0)" by code_simp
qed

theorem duplicate_assignments_witness:
  "(1::nat) < 2 \<and> 2 < length [0::nat, 0, 0] \<and> [0::nat, 0, 0] ! 1 = [0, 0, 0] ! 2 \<and>
   indexOf [0::nat, 0, 0] ([0, 0, 0] ! 2) = 0 \<and>
   arrangeMovementsInColumns testHeap [0, 0, 0] = Some [1, 0, 0] \<and>
   the (arrangeMovementsInColumns testHeap [0, 0, 0]) ! 2 = 0"
  using duplicate_assignments [of testHeap "[0, 0, 0]"]
  by (auto simp add: Let_def)

text \<open>
  C10. A period with the end year 0 is formatted like a period without an end, by
  \<open>formatYearRange\<close> and by the time indicator's \<open>formatRange\<close>: the result is the
  string of the start year. For a time range with the end year 0, the end of the visible
  range is the minimum of the end year of the viewport and the start of the time range.
\<close>

theorem end_zero_as_absent:
  "formatYearRange \<lparr>start = s, end' = Some 0\<rparr> = toString s \<and>
   formatYearRange \<lparr>start = s, end' = Some 0\<rparr> = formatYearRange \<lparr>start = s, end' = None\<rparr> \<and>
   formatRange \<lparr>start = s, end' = Some 0\<rparr> = toString s \<and>
   formatRange \<lparr>start = s, end' = Some 0\<rparr> = formatRange \<lparr>start = s, end' = None\<rparr> \<and>
   rangeEnd (updateVisibleRange offset screenHeight \<lparr>start = s, end' = Some 0\<rparr> config) =
     Math_min
       (scrollOffsetToYear (plus_number offset (minus_number screenHeight (Finite 200)))
          \<lparr>start = s, end' = Some 0\<rparr> config)
       (toNumber s)"
  by (simp add: formatYearRange_def formatRange_def updateVisibleRange_def endOrStart_def Let_def)

end
